theory Spec2Isabelle
  imports Main "HOL-Library.Word" "HOL-Library.Log_Nat"
begin

section \<open>Exceptions\<close>

text \<open>
  Every failure of the three modules is a Python exception. The modules raise
  \<open>ValueError\<close> with a fixed message; the library calls they make can raise
  \<open>struct.error\<close>, \<open>OverflowError\<close>, \<open>ZeroDivisionError\<close> and \<open>IndexError\<close>.
  A computation that can raise returns \<open>error + 'a\<close>, \<open>Inl\<close> being the exception.
\<close>

datatype error =
    ValueError string
  | StructError
  | OverflowError
  | ZeroDivisionError
  | IndexError

section \<open>Python floats\<close>

text \<open>
  A Python \<open>float\<close> is an IEEE 754 binary64 datum. \<open>Finite s m e\<close> is the number
  \<open>(-1)\<^sup>s \<sqdot> m \<sqdot> 2\<^sup>e\<close> with \<open>0 \<le> m < 2\<^sup>5\<^sup>3\<close> and \<open>-1074 \<le> e \<le> 971\<close>, kept canonical
  (\<open>2\<^sup>5\<^sup>2 \<le> m\<close> unless \<open>e = -1074\<close>), so that two finite floats are the same datum
  exactly when they are the same term; \<open>Finite s 0 (-1074)\<close> is the signed zero.
  \<open>NaN s p\<close> carries the sign and the 52-bit fraction field \<open>p\<close>.
\<close>

datatype pyfloat = Finite bool int int | Infinity bool | NaN bool int

type_synonym Point = "pyfloat \<times> pyfloat"

text \<open>Round \<open>n / 2\<^sup>s\<^sup>h\<close> to the nearest integer, ties to the even one.\<close>

definition rne :: "int \<Rightarrow> nat \<Rightarrow> int" where
  "rne n sh =
     (if sh = 0 then n
      else let q = n div 2 ^ sh; r = n mod 2 ^ sh; h = 2 ^ (sh - 1)
           in if h < r \<or> (r = h \<and> odd q) then q + 1 else q)"

text \<open>
  Round the exact magnitude \<open>n \<sqdot> 2\<^sup>e\<close> (\<open>n \<ge> 0\<close>) into the format with \<open>p\<close> significant
  bits and least exponent \<open>emin\<close>, to nearest, ties to even; a result beyond the
  largest exponent \<open>emax\<close> is infinite.
\<close>

definition round_fmt :: "nat \<Rightarrow> int \<Rightarrow> int \<Rightarrow> bool \<Rightarrow> int \<Rightarrow> int \<Rightarrow> pyfloat" where
  "round_fmt p emin emax s n e =
     (if n = 0 then Finite s 0 emin
      else let sh = max (bitlen n - int p) (emin - e);
               m = (if sh \<le> 0 then n * 2 ^ nat (- sh) else rne n (nat sh));
               m' = (if m = 2 ^ p then 2 ^ (p - 1) else m);
               e' = (if m = 2 ^ p then e + sh + 1 else e + sh)
           in if emax < e' then Infinity s else Finite s m' e')"

definition round64 :: "bool \<Rightarrow> int \<Rightarrow> int \<Rightarrow> pyfloat" where
  "round64 = round_fmt 53 (- 1074) 971"

definition round32 :: "bool \<Rightarrow> int \<Rightarrow> int \<Rightarrow> pyfloat" where
  "round32 = round_fmt 24 (- 149) 104"

text \<open>
  Which NaN an arithmetic operation delivers is left to the processor by IEEE 754;
  no comparison and no output of the program depends on it. The model delivers the
  first NaN operand, or the quiet NaN with empty payload for an invalid operation.
\<close>

definition default_nan :: pyfloat where
  "default_nan = NaN False (2 ^ 51)"

definition sgn_int :: "bool \<Rightarrow> int \<Rightarrow> int" where
  "sgn_int s m = (if s then - m else m)"

fun fneg :: "pyfloat \<Rightarrow> pyfloat" where
  "fneg (Finite s m e) = Finite (\<not> s) m e"
| "fneg (Infinity s) = Infinity (\<not> s)"
| "fneg (NaN s p) = NaN (\<not> s) p"

text \<open>\<open>abs(x)\<close>\<close>

fun fabs :: "pyfloat \<Rightarrow> pyfloat" where
  "fabs (Finite s m e) = Finite False m e"
| "fabs (Infinity s) = Infinity False"
| "fabs (NaN s p) = NaN False p"

text \<open>\<open>x + y\<close>\<close>

fun fadd :: "pyfloat \<Rightarrow> pyfloat \<Rightarrow> pyfloat" where
  "fadd (NaN s p) _ = NaN s p"
| "fadd _ (NaN s p) = NaN s p"
| "fadd (Infinity s) (Infinity t) = (if s = t then Infinity s else default_nan)"
| "fadd (Infinity s) (Finite _ _ _) = Infinity s"
| "fadd (Finite _ _ _) (Infinity t) = Infinity t"
| "fadd (Finite s1 m1 e1) (Finite s2 m2 e2) =
     (let e = min e1 e2;
          n = sgn_int s1 m1 * 2 ^ nat (e1 - e) + sgn_int s2 m2 * 2 ^ nat (e2 - e)
      in if n = 0 then Finite (s1 \<and> s2) 0 (- 1074)
         else round64 (n < 0) \<bar>n\<bar> e)"

text \<open>\<open>x - y\<close>\<close>

definition fsub :: "pyfloat \<Rightarrow> pyfloat \<Rightarrow> pyfloat" where
  "fsub a b = fadd a (fneg b)"

text \<open>\<open>x * y\<close>\<close>

fun fmul :: "pyfloat \<Rightarrow> pyfloat \<Rightarrow> pyfloat" where
  "fmul (NaN s p) _ = NaN s p"
| "fmul _ (NaN s p) = NaN s p"
| "fmul (Infinity s) (Infinity t) = Infinity (s \<noteq> t)"
| "fmul (Infinity s) (Finite t m e) = (if m = 0 then default_nan else Infinity (s \<noteq> t))"
| "fmul (Finite s m e) (Infinity t) = (if m = 0 then default_nan else Infinity (s \<noteq> t))"
| "fmul (Finite s1 m1 e1) (Finite s2 m2 e2) = round64 (s1 \<noteq> s2) (m1 * m2) (e1 + e2)"

text \<open>
  \<open>x / y\<close>: Python raises \<open>ZeroDivisionError\<close> for a zero divisor. The quotient of
  two finite floats is computed to at least 55 bits with a sticky bit and rounded.
\<close>

fun fdiv :: "pyfloat \<Rightarrow> pyfloat \<Rightarrow> error + pyfloat" where
  "fdiv (Finite s m1 e1) (Finite t m2 e2) =
     (if m2 = 0 then Inl ZeroDivisionError
      else if m1 = 0 then Inr (Finite (s \<noteq> t) 0 (- 1074))
      else let k = nat (bitlen m2 + 55 - bitlen m1);
               num = m1 * 2 ^ k;
               q = num div m2;
               sticky = (if num mod m2 = 0 then 0 else 1)
           in Inr (round64 (s \<noteq> t) (2 * q + sticky) (e1 - e2 - int k - 1)))"
| "fdiv (Infinity s) (Finite t m2 e2) =
     (if m2 = 0 then Inl ZeroDivisionError else Inr (Infinity (s \<noteq> t)))"
| "fdiv (NaN s p) (Finite t m2 e2) =
     (if m2 = 0 then Inl ZeroDivisionError else Inr (NaN s p))"
| "fdiv (NaN s p) (Infinity t) = Inr (NaN s p)"
| "fdiv (NaN s p) (NaN t q) = Inr (NaN s p)"
| "fdiv (Infinity s) (NaN t q) = Inr (NaN t q)"
| "fdiv (Finite s m e) (NaN t q) = Inr (NaN t q)"
| "fdiv (Infinity s) (Infinity t) = Inr default_nan"
| "fdiv (Finite s m e) (Infinity t) = Inr (Finite (s \<noteq> t) 0 (- 1074))"

text \<open>
  \<open>x ** 2\<close>: CPython's \<open>float_pow\<close> returns a NaN base unchanged, \<open>inf\<close> for an
  infinite base, \<open>0.0\<close> for a zero base, and otherwise calls C's \<open>pow\<close> on the
  absolute value, raising \<open>OverflowError\<close> when the result overflows. \<open>pow(x, 2.0)\<close>
  is taken to be correctly rounded.
\<close>

fun fpow2 :: "pyfloat \<Rightarrow> error + pyfloat" where
  "fpow2 (NaN s p) = Inr (NaN s p)"
| "fpow2 (Infinity s) = Inr (Infinity False)"
| "fpow2 (Finite s m e) =
     (case round64 False (m * m) (2 * e) of
        Infinity _ \<Rightarrow> Inl OverflowError
      | r \<Rightarrow> Inr r)"

text \<open>\<open>x < y\<close>, \<open>x > y\<close> and \<open>x == y\<close>: comparisons with a NaN are false.\<close>

fun flt :: "pyfloat \<Rightarrow> pyfloat \<Rightarrow> bool" where
  "flt (NaN _ _) _ = False"
| "flt _ (NaN _ _) = False"
| "flt (Infinity s) (Infinity t) = (s \<and> \<not> t)"
| "flt (Infinity s) (Finite _ _ _) = s"
| "flt (Finite _ _ _) (Infinity t) = (\<not> t)"
| "flt (Finite s1 m1 e1) (Finite s2 m2 e2) =
     (let e = min e1 e2
      in sgn_int s1 m1 * 2 ^ nat (e1 - e) < sgn_int s2 m2 * 2 ^ nat (e2 - e))"

definition fgt :: "pyfloat \<Rightarrow> pyfloat \<Rightarrow> bool" where
  "fgt a b = flt b a"

fun feq :: "pyfloat \<Rightarrow> pyfloat \<Rightarrow> bool" where
  "feq (NaN _ _) _ = False"
| "feq _ (NaN _ _) = False"
| "feq (Infinity s) (Infinity t) = (s = t)"
| "feq (Infinity s) (Finite _ _ _) = False"
| "feq (Finite _ _ _) (Infinity t) = False"
| "feq (Finite s1 m1 e1) (Finite s2 m2 e2) =
     (let e = min e1 e2
      in sgn_int s1 m1 * 2 ^ nat (e1 - e) = sgn_int s2 m2 * 2 ^ nat (e2 - e))"

text \<open>An \<open>int\<close> operand of a float operation is converted first (\<open>2\<close>, \<open>20\<close>).\<close>

definition float_of_int :: "int \<Rightarrow> pyfloat" where
  "float_of_int n = round64 (n < 0) \<bar>n\<bar> 0"

text \<open>The literal \<open>1e-9\<close>: the double nearest to \<open>10\<^sup>-\<^sup>9\<close>, \<open>0x1.12e0be826d695p-30\<close>.\<close>

definition eps :: pyfloat where
  "eps = Finite False 4835703278458517 (- 82)"

text \<open>
  \<open>min(iterable)\<close> and \<open>max(iterable)\<close> keep the first item and replace it by a
  later one that is smaller (larger); \<open>max(a, b)\<close> does the same on two arguments.
\<close>

definition py_min :: "pyfloat list \<Rightarrow> error + pyfloat" where
  "py_min xs =
     (case xs of
        [] \<Rightarrow> Inl (ValueError ''min() arg is an empty sequence'')
      | x # ys \<Rightarrow> Inr (foldl (\<lambda>m y. if flt y m then y else m) x ys))"

definition py_max :: "pyfloat list \<Rightarrow> error + pyfloat" where
  "py_max xs =
     (case xs of
        [] \<Rightarrow> Inl (ValueError ''max() arg is an empty sequence'')
      | x # ys \<Rightarrow> Inr (foldl (\<lambda>m y. if fgt y m then y else m) x ys))"

definition py_max2 :: "pyfloat \<Rightarrow> pyfloat \<Rightarrow> pyfloat" where
  "py_max2 a b = (if fgt b a then b else a)"

section \<open>The struct formats\<close>

type_synonym byte = "8 word"

text \<open>Little-endian unsigned integers of \<open>k\<close> bytes.\<close>

fun le_decode :: "byte list \<Rightarrow> int" where
  "le_decode [] = 0"
| "le_decode (b # bs) = uint b + 256 * le_decode bs"

fun le_encode :: "nat \<Rightarrow> int \<Rightarrow> byte list" where
  "le_encode 0 v = []"
| "le_encode (Suc k) v = word_of_int (v mod 256) # le_encode k (v div 256)"

text \<open>
  \<open>struct.unpack_from\<close> raises \<open>struct.error\<close> unless the buffer holds the
  bytes asked for.
\<close>

definition read_bytes :: "byte list \<Rightarrow> nat \<Rightarrow> nat \<Rightarrow> error + byte list" where
  "read_bytes data offset k =
     (if offset + k \<le> length data then Inr (take k (drop offset data))
      else Inl StructError)"

text \<open>Format \<open><I\<close>.\<close>

definition unpack_I :: "byte list \<Rightarrow> nat \<Rightarrow> error + int" where
  "unpack_I data offset =
     (case read_bytes data offset 4 of
        Inl e \<Rightarrow> Inl e
      | Inr bs \<Rightarrow> Inr (le_decode bs))"

definition pack_I :: "int \<Rightarrow> error + byte list" where
  "pack_I v =
     (if 0 \<le> v \<and> v \<le> 4294967295 then Inr (le_encode 4 v)
      else Inl StructError)"

text \<open>
  Format \<open><f\<close>. Unpacking widens a binary32 datum to a double with the C
  conversion, which keeps every number and infinity, and delivers for a NaN the
  quiet NaN with the same sign and payload. Packing narrows with the C conversion:
  round to nearest, \<open>OverflowError\<close> when a finite double rounds to infinity, and
  a quiet NaN with the truncated payload for a NaN.
\<close>

definition float_of_bits32 :: "int \<Rightarrow> pyfloat" where
  "float_of_bits32 w =
     (let s = (w div 2 ^ 31 mod 2 = 1);
          ex = w div 2 ^ 23 mod 256;
          fr = w mod 2 ^ 23
      in if ex = 255 then
           (if fr = 0 then Infinity s else NaN s ((2 ^ 22 + fr mod 2 ^ 22) * 2 ^ 29))
         else if ex = 0 then
           (if fr = 0 then Finite s 0 (- 1074)
            else let k = nat (53 - bitlen fr) in Finite s (fr * 2 ^ k) (- 149 - int k))
         else Finite s ((2 ^ 23 + fr) * 2 ^ 29) (ex - 179))"

definition bits32 :: "bool \<Rightarrow> int \<Rightarrow> int \<Rightarrow> int" where
  "bits32 s ex fr = (if s then 2 ^ 31 else 0) + ex * 2 ^ 23 + fr"

fun bits32_of_float :: "pyfloat \<Rightarrow> error + int" where
  "bits32_of_float (NaN s p) = Inr (bits32 s 255 (2 ^ 22 + p div 2 ^ 29 mod 2 ^ 22))"
| "bits32_of_float (Infinity s) = Inr (bits32 s 255 0)"
| "bits32_of_float (Finite s m e) =
     (case round32 s m e of
        Finite s' m' e' \<Rightarrow>
          Inr (if m' < 2 ^ 23 then bits32 s' 0 m'
               else bits32 s' (e' + 150) (m' - 2 ^ 23))
      | _ \<Rightarrow> Inl OverflowError)"

definition unpack_f :: "byte list \<Rightarrow> nat \<Rightarrow> error + pyfloat" where
  "unpack_f data offset =
     (case read_bytes data offset 4 of
        Inl e \<Rightarrow> Inl e
      | Inr bs \<Rightarrow> Inr (float_of_bits32 (le_decode bs)))"

definition pack_f :: "pyfloat \<Rightarrow> error + byte list" where
  "pack_f x =
     (case bits32_of_float x of
        Inl e \<Rightarrow> Inl e
      | Inr w \<Rightarrow> Inr (le_encode 4 w))"

text \<open>Format \<open><ff\<close>: the whole buffer range is checked before either float is read.\<close>

definition unpack_ff :: "byte list \<Rightarrow> nat \<Rightarrow> error + Point" where
  "unpack_ff data offset =
     (case read_bytes data offset 8 of
        Inl e \<Rightarrow> Inl e
      | Inr bs \<Rightarrow>
          Inr (float_of_bits32 (le_decode (take 4 bs)),
               float_of_bits32 (le_decode (drop 4 bs))))"

definition pack_ff :: "Point \<Rightarrow> error + byte list" where
  "pack_ff pt =
     (case pack_f (fst pt) of
        Inl e \<Rightarrow> Inl e
      | Inr bx \<Rightarrow>
          (case pack_f (snd pt) of
             Inl e \<Rightarrow> Inl e
           | Inr by \<Rightarrow> Inr (bx @ by)))"

section \<open>PointSet\<close>

record PointSet =
  points :: "Point list"

text \<open>The loop of \<open>_build_from_bytes\<close>: \<open>count\<close> reads, the offset advancing by 8.\<close>

fun read_points :: "byte list \<Rightarrow> nat \<Rightarrow> nat \<Rightarrow> error + Point list" where
  "read_points data offset 0 = Inr []"
| "read_points data offset (Suc n) =
     (case unpack_ff data offset of
        Inl e \<Rightarrow> Inl e
      | Inr pt \<Rightarrow>
          (case read_points data (offset + 8) n of
             Inl e \<Rightarrow> Inl e
           | Inr pts \<Rightarrow> Inr (pt # pts)))"

definition build_from_bytes :: "byte list \<Rightarrow> error + Point list" where
  "build_from_bytes data =
     (if length data < 4 then Inl (ValueError ''buffer too short to contain point count'')
      else case unpack_I data 0 of
        Inl e \<Rightarrow> Inl e
      | Inr count \<Rightarrow>
          (let offset = 4
           in if int (length data) < int offset + count * 8 then Inl (ValueError ''buffer too short'')
              else read_points data offset (nat count)))"

definition PointSet_init :: "byte list \<Rightarrow> error + PointSet" where
  "PointSet_init pointset_bytes =
     (case build_from_bytes pointset_bytes of
        Inl e \<Rightarrow> Inl e
      | Inr pts \<Rightarrow> Inr \<lparr>points = pts\<rparr>)"

fun pack_points :: "Point list \<Rightarrow> error + byte list" where
  "pack_points [] = Inr []"
| "pack_points (pt # pts) =
     (case pack_ff pt of
        Inl e \<Rightarrow> Inl e
      | Inr b \<Rightarrow>
          (case pack_points pts of
             Inl e \<Rightarrow> Inl e
           | Inr bs \<Rightarrow> Inr (b @ bs)))"

definition PointSet_to_bytes :: "PointSet \<Rightarrow> error + byte list" where
  "PointSet_to_bytes self =
     (case pack_I (int (length (points self))) of
        Inl e \<Rightarrow> Inl e
      | Inr cnt \<Rightarrow>
          (case pack_points (points self) of
             Inl e \<Rightarrow> Inl e
           | Inr body \<Rightarrow> Inr (cnt @ body)))"

section \<open>Triangles\<close>

text \<open>
  A triangle is typed as a 3-tuple of \<open>int\<close> in the source, but the validation
  measures its length, so a candidate triangle is a list of Python integers.
\<close>

type_synonym Triangle = "int list"

record Triangles =
  pointset :: PointSet
  triangles :: "Triangle list"

definition validate_indices_number :: "Triangle \<Rightarrow> error + unit" where
  "validate_indices_number triangle =
     (if \<not> length triangle = 3 then Inl (ValueError ''a triangle don't have exactly 3 indices'')
      else Inr ())"

text \<open>The tuple assignment \<open>i, j, k = triangle\<close>.\<close>

definition unpack3 :: "Triangle \<Rightarrow> error + int \<times> int \<times> int" where
  "unpack3 triangle =
     (case triangle of
        [i, j, k] \<Rightarrow> Inr (i, j, k)
      | [] \<Rightarrow> Inl (ValueError ''not enough values to unpack (expected 3, got 0)'')
      | [_] \<Rightarrow> Inl (ValueError ''not enough values to unpack (expected 3, got 1)'')
      | [_, _] \<Rightarrow> Inl (ValueError ''not enough values to unpack (expected 3, got 2)'')
      | _ \<Rightarrow> Inl (ValueError ''too many values to unpack (expected 3)''))"

definition validate_indices_in_range :: "Triangle \<Rightarrow> int \<Rightarrow> error + unit" where
  "validate_indices_in_range triangle nb_points =
     (case unpack3 triangle of
        Inl e \<Rightarrow> Inl e
      | Inr (i, j, k) \<Rightarrow>
          (if (i < 0 \<or> i \<ge> nb_points) \<or> (j < 0 \<or> j \<ge> nb_points) \<or> (k < 0 \<or> k \<ge> nb_points)
           then Inl (ValueError ''triangle indices out of range'')
           else Inr ()))"

definition validate_distinct_vertices :: "Triangle \<Rightarrow> error + unit" where
  "validate_distinct_vertices triangle =
     (if card (set triangle) \<noteq> 3
      then Inl (ValueError ''a triangle must reference three distinct points'')
      else Inr ())"

text \<open>Returns the set \<open>seen\<close> as the call leaves it.\<close>

definition validate_not_duplicate :: "Triangle \<Rightarrow> int list set \<Rightarrow> error + int list set" where
  "validate_not_duplicate triangle seen =
     (case unpack3 triangle of
        Inl e \<Rightarrow> Inl e
      | Inr (i, j, k) \<Rightarrow>
          (let key = sort [i, j, k]
           in if key \<in> seen then Inl (ValueError ''duplicate triangles'')
              else Inr (insert key seen)))"

fun validate_loop :: "int \<Rightarrow> int list set \<Rightarrow> Triangle list \<Rightarrow> error + unit" where
  "validate_loop nb seen [] = Inr ()"
| "validate_loop nb seen (triangle # rest) =
     (case validate_indices_number triangle of
        Inl e \<Rightarrow> Inl e
      | Inr _ \<Rightarrow>
     (case validate_indices_in_range triangle nb of
        Inl e \<Rightarrow> Inl e
      | Inr _ \<Rightarrow>
     (case validate_distinct_vertices triangle of
        Inl e \<Rightarrow> Inl e
      | Inr _ \<Rightarrow>
     (case validate_not_duplicate triangle seen of
        Inl e \<Rightarrow> Inl e
      | Inr seen' \<Rightarrow> validate_loop nb seen' rest))))"

definition validate_triangles :: "Triangles \<Rightarrow> error + unit" where
  "validate_triangles self =
     validate_loop (int (length (points (pointset self)))) {} (triangles self)"

definition Triangles_init :: "PointSet \<Rightarrow> Triangle list \<Rightarrow> error + Triangles" where
  "Triangles_init ps ts =
     (let self = \<lparr>pointset = ps, triangles = ts\<rparr>
      in case validate_triangles self of
           Inl e \<Rightarrow> Inl e
         | Inr _ \<Rightarrow> Inr self)"

fun pack_triangles :: "Triangle list \<Rightarrow> error + byte list" where
  "pack_triangles [] = Inr []"
| "pack_triangles (t # ts) =
     (case unpack3 t of
        Inl e \<Rightarrow> Inl e
      | Inr (i, j, k) \<Rightarrow>
     (case pack_I i of
        Inl e \<Rightarrow> Inl e
      | Inr bi \<Rightarrow>
     (case pack_I j of
        Inl e \<Rightarrow> Inl e
      | Inr bj \<Rightarrow>
     (case pack_I k of
        Inl e \<Rightarrow> Inl e
      | Inr bk \<Rightarrow>
     (case pack_triangles ts of
        Inl e \<Rightarrow> Inl e
      | Inr bs \<Rightarrow> Inr (bi @ bj @ bk @ bs))))))"

definition Triangles_to_bytes :: "Triangles \<Rightarrow> error + byte list" where
  "Triangles_to_bytes self =
     (case PointSet_to_bytes (pointset self) of
        Inl e \<Rightarrow> Inl e
      | Inr buf \<Rightarrow>
     (case pack_I (int (length (triangles self))) of
        Inl e \<Rightarrow> Inl e
      | Inr cnt \<Rightarrow>
     (case pack_triangles (triangles self) of
        Inl e \<Rightarrow> Inl e
      | Inr body \<Rightarrow> Inr (buf @ cnt @ body))))"

section \<open>Triangulator\<close>

type_synonym TriangleIndices = "int \<times> int \<times> int"

record Triangulator =
  point_set :: PointSet

definition validate_min_points :: "Point list \<Rightarrow> error + unit" where
  "validate_min_points pts =
     (if length pts < 3 then Inl (ValueError ''need at least three points for triangulation'')
      else Inr ())"

text \<open>
  The set \<open>seen\<close> holds the keys \<open>(float(x), float(y))\<close> met so far; membership
  compares tuples item by item with \<open>==\<close>. The coordinates are separate float
  objects, so the identity shortcut of the comparison never applies.
\<close>

definition point_eq :: "Point \<Rightarrow> Point \<Rightarrow> bool" where
  "point_eq a b = (feq (fst a) (fst b) \<and> feq (snd a) (snd b))"

fun no_duplicates_loop :: "Point list \<Rightarrow> Point list \<Rightarrow> error + unit" where
  "no_duplicates_loop seen [] = Inr ()"
| "no_duplicates_loop seen (key # rest) =
     (if list_ex (point_eq key) seen then Inl (ValueError ''duplicate points in point set'')
      else no_duplicates_loop (seen @ [key]) rest)"

definition validate_no_duplicates :: "Point list \<Rightarrow> error + unit" where
  "validate_no_duplicates pts = no_duplicates_loop [] pts"

definition Triangulator_init :: "PointSet \<Rightarrow> error + Triangulator" where
  "Triangulator_init ps =
     (case validate_min_points (points ps) of
        Inl e \<Rightarrow> Inl e
      | Inr _ \<Rightarrow>
     (case validate_no_duplicates (points ps) of
        Inl e \<Rightarrow> Inl e
      | Inr _ \<Rightarrow> Inr \<lparr>point_set = ps\<rparr>))"

text \<open>List indexing \<open>xs[i]\<close>: a negative index counts from the end.\<close>

definition py_index :: "'a list \<Rightarrow> int \<Rightarrow> error + 'a" where
  "py_index xs i =
     (if 0 \<le> i \<and> i < int (length xs) then Inr (xs ! nat i)
      else if i < 0 \<and> - int (length xs) \<le> i then Inr (xs ! nat (int (length xs) + i))
      else Inl IndexError)"

text \<open>\<open>_is_point_in_circumcircle\<close>\<close>

definition circum_d :: "Point \<Rightarrow> Point \<Rightarrow> Point \<Rightarrow> pyfloat" where
  "circum_d p1 p2 p3 =
     (let ax = fst p1; ay = snd p1; bx = fst p2; by = snd p2; cx = fst p3; cy = snd p3
      in fmul (float_of_int 2)
           (fadd (fadd (fmul ax (fsub by cy)) (fmul bx (fsub cy ay))) (fmul cx (fsub ay by))))"

definition in_circumcircle :: "Point \<Rightarrow> Point \<Rightarrow> Point \<Rightarrow> Point \<Rightarrow> error + bool" where
  "in_circumcircle p p1 p2 p3 =
     (let ax = fst p1; ay = snd p1; bx = fst p2; by = snd p2; cx = fst p3; cy = snd p3;
          d = circum_d p1 p2 p3
      in if flt (fabs d) eps then Inr False
         else
          (case fdiv (fadd (fadd (fmul (fadd (fmul ax ax) (fmul ay ay)) (fsub by cy))
                                 (fmul (fadd (fmul bx bx) (fmul by by)) (fsub cy ay)))
                           (fmul (fadd (fmul cx cx) (fmul cy cy)) (fsub ay by))) d of
             Inl e \<Rightarrow> Inl e
           | Inr ux \<Rightarrow>
          (case fdiv (fadd (fadd (fmul (fadd (fmul ax ax) (fmul ay ay)) (fsub cx bx))
                                 (fmul (fadd (fmul bx bx) (fmul by by)) (fsub ax cx)))
                           (fmul (fadd (fmul cx cx) (fmul cy cy)) (fsub bx ax))) d of
             Inl e \<Rightarrow> Inl e
           | Inr uy \<Rightarrow>
          (case fpow2 (fsub ux ax) of
             Inl e \<Rightarrow> Inl e
           | Inr rx \<Rightarrow>
          (case fpow2 (fsub uy ay) of
             Inl e \<Rightarrow> Inl e
           | Inr ry \<Rightarrow>
          (case fpow2 (fsub ux (fst p)) of
             Inl e \<Rightarrow> Inl e
           | Inr qx \<Rightarrow>
          (case fpow2 (fsub uy (snd p)) of
             Inl e \<Rightarrow> Inl e
           | Inr qy \<Rightarrow>
               (let r_sq = fadd rx ry; d_sq = fadd qx qy
                in Inr (flt d_sq (fsub r_sq eps))))))))))"

definition is_point_in_circumcircle ::
  "Point \<Rightarrow> TriangleIndices \<Rightarrow> Point list \<Rightarrow> error + bool" where
  "is_point_in_circumcircle p triangle all_points =
     (case py_index all_points (fst triangle) of
        Inl e \<Rightarrow> Inl e
      | Inr p1 \<Rightarrow>
     (case py_index all_points (fst (snd triangle)) of
        Inl e \<Rightarrow> Inl e
      | Inr p2 \<Rightarrow>
     (case py_index all_points (snd (snd triangle)) of
        Inl e \<Rightarrow> Inl e
      | Inr p3 \<Rightarrow> in_circumcircle p p1 p2 p3)))"

text \<open>Step 1 of \<open>triangulate\<close>: the three vertices of the super-triangle.\<close>

definition super_triangle_nodes :: "Point list \<Rightarrow> error + Point list" where
  "super_triangle_nodes pts =
     (case py_min (map fst pts) of Inl e \<Rightarrow> Inl e | Inr min_x \<Rightarrow>
     (case py_max (map fst pts) of Inl e \<Rightarrow> Inl e | Inr max_x \<Rightarrow>
     (case py_min (map snd pts) of Inl e \<Rightarrow> Inl e | Inr min_y \<Rightarrow>
     (case py_max (map snd pts) of Inl e \<Rightarrow> Inl e | Inr max_y \<Rightarrow>
     (let dx = fsub max_x min_x;
          dy = fsub max_y min_y;
          delta_max = py_max2 dx dy
      in
     (case fdiv (fadd min_x max_x) (float_of_int 2) of Inl e \<Rightarrow> Inl e | Inr mid_x \<Rightarrow>
     (case fdiv (fadd min_y max_y) (float_of_int 2) of Inl e \<Rightarrow> Inl e | Inr mid_y \<Rightarrow>
        (let st_p1 = (fsub mid_x (fmul (float_of_int 20) delta_max), fsub mid_y delta_max);
             st_p2 = (mid_x, fadd mid_y (fmul (float_of_int 20) delta_max));
             st_p3 = (fadd mid_x (fmul (float_of_int 20) delta_max), fsub mid_y delta_max)
         in Inr [st_p1, st_p2, st_p3]))))))))"

text \<open>
  The lists one run of \<open>triangulate\<close> works on. \<open>ps_points\<close> is the list object
  held by the PointSet (the local \<open>points\<close> is another name for it), \<open>all_points\<close>
  the new list made by \<open>points + super_triangle_nodes\<close>, \<open>triangulation\<close> the
  working list of triangles.
\<close>

record run_state =
  ps_points :: "Point list"
  all_points :: "Point list"
  triangulation :: "TriangleIndices list"

text \<open>Step 2, first inner loop: the triangles whose circumcircle holds the point.\<close>

fun find_bad_triangles ::
  "Point \<Rightarrow> TriangleIndices list \<Rightarrow> Point list \<Rightarrow> error + TriangleIndices list" where
  "find_bad_triangles point [] ap = Inr []"
| "find_bad_triangles point (tri # rest) ap =
     (case is_point_in_circumcircle point tri ap of
        Inl e \<Rightarrow> Inl e
      | Inr b \<Rightarrow>
          (case find_bad_triangles point rest ap of
             Inl e \<Rightarrow> Inl e
           | Inr bad \<Rightarrow> Inr (if b then tri # bad else bad)))"

text \<open>\<open>tuple(sorted(edge))\<close> for a pair.\<close>

definition sorted_edge :: "int \<times> int \<Rightarrow> int \<times> int" where
  "sorted_edge edge = (if snd edge < fst edge then (snd edge, fst edge) else edge)"

definition tri_edges :: "TriangleIndices \<Rightarrow> (int \<times> int) list" where
  "tri_edges tri =
     [(fst tri, fst (snd tri)), (fst (snd tri), snd (snd tri)), (snd (snd tri), fst tri)]"

definition other_edges :: "TriangleIndices \<Rightarrow> (int \<times> int) list" where
  "other_edges other_tri = map sorted_edge (tri_edges other_tri)"

definition edge_shared :: "TriangleIndices list \<Rightarrow> TriangleIndices \<Rightarrow> int \<times> int \<Rightarrow> bool" where
  "edge_shared bad_triangles tri edge =
     list_ex (\<lambda>other_tri. tri \<noteq> other_tri \<and> sorted_edge edge \<in> set (other_edges other_tri))
       bad_triangles"

definition polygon_of :: "TriangleIndices list \<Rightarrow> (int \<times> int) list" where
  "polygon_of bad_triangles =
     concat (map (\<lambda>tri. filter (\<lambda>edge. \<not> edge_shared bad_triangles tri edge) (tri_edges tri))
                 bad_triangles)"

text \<open>\<open>list.remove(x)\<close> deletes the first item equal to \<open>x\<close> and raises when there is none.\<close>

definition py_remove :: "'a \<Rightarrow> 'a list \<Rightarrow> error + 'a list" where
  "py_remove x xs =
     (if x \<in> set xs then Inr (remove1 x xs)
      else Inl (ValueError ''list.remove(x): x not in list''))"

fun remove_all :: "'a list \<Rightarrow> 'a list \<Rightarrow> error + 'a list" where
  "remove_all [] xs = Inr xs"
| "remove_all (tri # rest) xs =
     (case py_remove tri xs of
        Inl e \<Rightarrow> Inl e
      | Inr xs' \<Rightarrow> remove_all rest xs')"

text \<open>One pass of the loop over \<open>enumerate(points)\<close>.\<close>

definition insert_point :: "int \<Rightarrow> Point \<Rightarrow> run_state \<Rightarrow> error + run_state" where
  "insert_point i point st =
     (case find_bad_triangles point (triangulation st) (all_points st) of
        Inl e \<Rightarrow> Inl e
      | Inr bad_triangles \<Rightarrow>
          (let polygon = polygon_of bad_triangles
           in case remove_all bad_triangles (triangulation st) of
                Inl e \<Rightarrow> Inl e
              | Inr kept \<Rightarrow>
                  Inr (st\<lparr>triangulation :=
                            kept @ map (\<lambda>edge. (fst edge, snd edge, i)) polygon\<rparr>)))"

fun insert_loop :: "int \<Rightarrow> Point list \<Rightarrow> run_state \<Rightarrow> error + run_state" where
  "insert_loop i [] st = Inr st"
| "insert_loop i (point # rest) st =
     (case insert_point i point st of
        Inl e \<Rightarrow> Inl e
      | Inr st' \<Rightarrow> insert_loop (i + 1) rest st')"

text \<open>Step 3: the triangles that do not touch the super-triangle.\<close>

definition final_triangles :: "int \<Rightarrow> TriangleIndices list \<Rightarrow> TriangleIndices list" where
  "final_triangles n_points tris =
     filter (\<lambda>tri. \<not> (fst tri \<ge> n_points \<or> fst (snd tri) \<ge> n_points \<or> snd (snd tri) \<ge> n_points))
       tris"

definition tuple_list :: "TriangleIndices \<Rightarrow> Triangle" where
  "tuple_list tri = [fst tri, fst (snd tri), snd (snd tri)]"

text \<open>
  The whole run on the lists: the state it ends in, when no call raises before
  the mesh is built.
\<close>

definition run_triangulation :: "Point list \<Rightarrow> error + run_state" where
  "run_triangulation pts =
     (let n_points = int (length pts)
      in case super_triangle_nodes pts of
           Inl e \<Rightarrow> Inl e
         | Inr nodes \<Rightarrow>
             insert_loop 0 pts
               \<lparr>ps_points = pts,
                all_points = pts @ nodes,
                triangulation = [(n_points, n_points + 1, n_points + 2)]\<rparr>)"

text \<open>
  \<open>triangulate\<close> returns the mesh or the exception, together with the
  Triangulator as the call leaves it.
\<close>

definition triangulate :: "Triangulator \<Rightarrow> (error + Triangles) \<times> Triangulator" where
  "triangulate self =
     (case run_triangulation (points (point_set self)) of
        Inl e \<Rightarrow> (Inl e, self)
      | Inr st \<Rightarrow>
          (Triangles_init ((point_set self)\<lparr>points := ps_points st\<rparr>)
             (map tuple_list
                (final_triangles (int (length (ps_points st))) (triangulation st))),
           self\<lparr>point_set := (point_set self)\<lparr>points := ps_points st\<rparr>\<rparr>))"

section \<open>The properties, in the vocabulary of the specification\<close>

text \<open>
  The four invariants of a mesh, in the order the specification gives, as a
  function of the triangles accepted so far: the violation a candidate triangle
  commits first, if any.
\<close>

datatype violation = IndexCount | OutOfRange | NonDistinct | DuplicateTri

fun violation_message :: "violation \<Rightarrow> string" where
  "violation_message IndexCount = ''a triangle don't have exactly 3 indices''"
| "violation_message OutOfRange = ''triangle indices out of range''"
| "violation_message NonDistinct = ''a triangle must reference three distinct points''"
| "violation_message DuplicateTri = ''duplicate triangles''"

definition violation_of :: "int \<Rightarrow> Triangle list \<Rightarrow> Triangle \<Rightarrow> violation option" where
  "violation_of nb prev t =
     (if length t \<noteq> 3 then Some IndexCount
      else if \<exists>x \<in> set t. x < 0 \<or> nb \<le> x then Some OutOfRange
      else if \<not> distinct t then Some NonDistinct
      else if sort t \<in> sort ` set prev then Some DuplicateTri
      else None)"


text \<open>The two failures of construction, under the names of the specification.\<close>

definition InsufficientPoints :: error where
  "InsufficientPoints = ValueError ''need at least three points for triangulation''"

definition DuplicatePoints :: error where
  "DuplicatePoints = ValueError ''duplicate points in point set''"

text \<open>Two points of the collection are equal, coordinate by coordinate, under \<open>==\<close>.\<close>

definition has_equal_pair :: "Point list \<Rightarrow> bool" where
  "has_equal_pair pts = (\<exists>i j. i < j \<and> j < length pts \<and> point_eq (pts ! j) (pts ! i))"

text \<open>The floats \<open>0.0\<close> and \<open>1.0\<close>, and the three points of the unit right triangle.\<close>

definition zero_f :: pyfloat where
  "zero_f = Finite False 0 (- 1074)"

definition one_f :: pyfloat where
  "one_f = Finite False 4503599627370496 (- 52)"


definition three_points :: PointSet where
  "three_points = \<lparr>points = [(zero_f, zero_f), (one_f, zero_f), (zero_f, one_f)]\<rparr>"

text \<open>
  A binary32 word is a signalling NaN when its exponent field is all ones and its
  fraction is not zero and has the top bit clear; \<open>quiet32\<close> sets that bit.
\<close>

definition signalling32 :: "int \<Rightarrow> bool" where
  "signalling32 w = (w div 2 ^ 23 mod 256 = 255 \<and> w mod 2 ^ 23 \<noteq> 0 \<and> w mod 2 ^ 23 < 2 ^ 22)"

definition quiet32 :: "int \<Rightarrow> int" where
  "quiet32 w = (if signalling32 w then w + 2 ^ 22 else w)"

text \<open>The floats that unpacking a binary32 word can give.\<close>

definition f32_value :: "pyfloat \<Rightarrow> bool" where
  "f32_value x = (\<exists>w. 0 \<le> w \<and> w < 2 ^ 32 \<and> x = float_of_bits32 w)"

text \<open>
  The fields of a point-set buffer: the count, the \<open>i\<close>-th coordinate word after
  it, and the point the words \<open>2i\<close> and \<open>2i + 1\<close> denote.
\<close>

definition point_count :: "byte list \<Rightarrow> int" where
  "point_count data = le_decode (take 4 data)"

definition coord_word :: "byte list \<Rightarrow> nat \<Rightarrow> int" where
  "coord_word data i = le_decode (take 4 (drop (4 + 4 * i) data))"

definition decoded_point :: "byte list \<Rightarrow> nat \<Rightarrow> Point" where
  "decoded_point data i =
     (float_of_bits32 (coord_word data (2 * i)), float_of_bits32 (coord_word data (2 * i + 1)))"

text \<open>The two decoding failures are the MalformedBuffer kind of the specification.\<close>

definition MalformedBuffer :: "error \<Rightarrow> bool" where
  "MalformedBuffer e =
     (e = ValueError ''buffer too short to contain point count'' \<or> e = ValueError ''buffer too short'')"

text \<open>No coordinate word of the declared points is a signalling NaN.\<close>

definition no_signalling :: "byte list \<Rightarrow> bool" where
  "no_signalling data =
     (\<forall>i < 2 * nat (point_count data). \<not> signalling32 (coord_word data i))"

text \<open>
  Two buffers of one point: \<open>(sNaN, 0.0)\<close>, the NaN being the word \<open>0x7F800001\<close>,
  and \<open>(1.0, 0.0)\<close>.
\<close>

definition snan_buffer :: "byte list" where
  "snan_buffer = [1, 0, 0, 0, 1, 0, 0x80, 0x7F, 0, 0, 0, 0]"

definition one_point_buffer :: "byte list" where
  "one_point_buffer = [1, 0, 0, 0, 0, 0, 0x80, 0x3F, 0, 0, 0, 0]"

text \<open>The sign, exponent and fraction fields of a binary32 word.\<close>

definition sign32 :: "int \<Rightarrow> bool" where
  "sign32 w = (w div 2 ^ 31 mod 2 = 1)"

definition exponent32 :: "int \<Rightarrow> int" where
  "exponent32 w = w div 2 ^ 23 mod 256"

definition fraction32 :: "int \<Rightarrow> int" where
  "fraction32 w = w mod 2 ^ 23"

text \<open>
  What decoding may do to the coordinate word \<open>w\<close> when it delivers the float \<open>c\<close>
  without validating it: an infinity word gives that infinity, a NaN word gives the
  NaN of the same sign whose fraction field holds the 22 payload bits of the word
  under the quiet bit, any other word gives a finite float of the same sign, and
  \<open>c\<close> packs back to \<open>w\<close>, with the quiet bit set when \<open>w\<close> is a signalling NaN.
\<close>

definition passes_through :: "int \<Rightarrow> pyfloat \<Rightarrow> bool" where
  "passes_through w c =
     ((exponent32 w = 255 \<and> fraction32 w = 0 \<longrightarrow> c = Infinity (sign32 w))
      \<and> (exponent32 w = 255 \<and> fraction32 w \<noteq> 0 \<longrightarrow>
            c = NaN (sign32 w) ((2 ^ 22 + fraction32 w mod 2 ^ 22) * 2 ^ 29))
      \<and> (exponent32 w \<noteq> 255 \<longrightarrow> (\<exists>m e. c = Finite (sign32 w) m e))
      \<and> bits32_of_float c = Inr (quiet32 w))"

text \<open>
  Three more buffers: the point \<open>(qNaN, 0.0)\<close>, the NaN being the word
  \<open>0x7FC00001\<close>; the two points \<open>(inf, NaN)\<close> and \<open>(1.0, 0.0)\<close>; and a buffer that
  declares two points and holds one.
\<close>

definition qnan_buffer :: "byte list" where
  "qnan_buffer = [1, 0, 0, 0, 1, 0, 0xC0, 0x7F, 0, 0, 0, 0]"

definition inf_nan_buffer :: "byte list" where
  "inf_nan_buffer =
     [2, 0, 0, 0,
      0, 0, 0x80, 0x7F,  0, 0, 0xC0, 0x7F,
      0, 0, 0x80, 0x3F,  0, 0, 0, 0]"

definition short_buffer :: "byte list" where
  "short_buffer = [2, 0, 0, 0, 0, 0, 0x80, 0x7F, 0, 0, 0xC0, 0x7F]"

text \<open>
  The invariant of the working list of triangles while point \<open>i\<close> of \<open>n\<close> is
  about to be inserted: every triangle has three different vertices among the
  points already inserted and the three super-triangle vertices, and no two
  triangles of the list have the same vertex set.
\<close>

definition vset :: "TriangleIndices \<Rightarrow> int set" where
  "vset t = {fst t, fst (snd t), snd (snd t)}"

definition tri_ok :: "TriangleIndices \<Rightarrow> bool" where
  "tri_ok t = (fst t \<noteq> fst (snd t) \<and> fst (snd t) \<noteq> snd (snd t) \<and> fst t \<noteq> snd (snd t))"

definition live :: "int \<Rightarrow> int \<Rightarrow> int set" where
  "live n i = {k. 0 \<le> k \<and> k < i} \<union> {n, n + 1, n + 2}"

definition tri_inv :: "int \<Rightarrow> int \<Rightarrow> TriangleIndices list \<Rightarrow> bool" where
  "tri_inv n i ts =
     ((\<forall>t \<in> set ts. vset t \<subseteq> live n i \<and> tri_ok t) \<and> distinct (map vset ts))"

text \<open>No circumcircle test of a point of \<open>pts\<close> against vertices of \<open>ap\<close> raises.\<close>

definition circ_safe :: "Point list \<Rightarrow> Point list \<Rightarrow> bool" where
  "circ_safe ap pts =
     (\<forall>p \<in> set pts. \<forall>p1 \<in> set ap. \<forall>p2 \<in> set ap. \<forall>p3 \<in> set ap.
        \<exists>b. in_circumcircle p p1 p2 p3 = Inr b)"

text \<open>The four corners of the unit square, and the buffer that holds them.\<close>

definition square_points :: PointSet where
  "square_points =
     \<lparr>points = [(zero_f, zero_f), (one_f, zero_f), (one_f, one_f), (zero_f, one_f)]\<rparr>"

definition unit_square_buffer :: "byte list" where
  "unit_square_buffer =
     [4, 0, 0, 0,
      0, 0, 0, 0,  0, 0, 0, 0,
      0, 0, 0x80, 0x3F,  0, 0, 0, 0,
      0, 0, 0x80, 0x3F,  0, 0, 0x80, 0x3F,
      0, 0, 0, 0,  0, 0, 0x80, 0x3F]"

text \<open>Bounds on the magnitude of a float, for the proof that no operation of a run raises.\<close>

definition bnd :: "int \<Rightarrow> pyfloat \<Rightarrow> bool" where
  "bnd k x = (case x of Finite s m e \<Rightarrow> 0 \<le> m \<and> (m = 0 \<or> bitlen m + e \<le> k) | _ \<Rightarrow> True)"

definition big_enough :: "int \<Rightarrow> pyfloat \<Rightarrow> bool" where
  "big_enough l x = (case x of Finite s m e \<Rightarrow> 0 < m \<and> l \<le> bitlen m + e | _ \<Rightarrow> True)"

definition pt_bnd :: "int \<Rightarrow> Point \<Rightarrow> bool" where
  "pt_bnd k p = (bnd k (fst p) \<and> bnd k (snd p))"

text \<open>
  The circumcentre by the determinant formulas, and the squared distance between
  two points, in float arithmetic.
\<close>

definition circumcenter :: "Point \<Rightarrow> Point \<Rightarrow> Point \<Rightarrow> error + Point" where
  "circumcenter a b c =
     (let ax = fst a; ay = snd a; bx = fst b; by = snd b; cx = fst c; cy = snd c;
          d = circum_d a b c
      in case fdiv (fadd (fadd (fmul (fadd (fmul ax ax) (fmul ay ay)) (fsub by cy))
                               (fmul (fadd (fmul bx bx) (fmul by by)) (fsub cy ay)))
                         (fmul (fadd (fmul cx cx) (fmul cy cy)) (fsub ay by))) d of
           Inl e \<Rightarrow> Inl e
         | Inr ux \<Rightarrow>
        (case fdiv (fadd (fadd (fmul (fadd (fmul ax ax) (fmul ay ay)) (fsub cx bx))
                               (fmul (fadd (fmul bx bx) (fmul by by)) (fsub ax cx)))
                         (fmul (fadd (fmul cx cx) (fmul cy cy)) (fsub bx ax))) d of
           Inl e \<Rightarrow> Inl e
         | Inr uy \<Rightarrow> Inr (ux, uy)))"

definition sq_dist :: "Point \<Rightarrow> Point \<Rightarrow> pyfloat" where
  "sq_dist c q =
     fadd (fmul (fsub (fst c) (fst q)) (fsub (fst c) (fst q)))
          (fmul (fsub (snd c) (snd q)) (fsub (snd c) (snd q)))"

text \<open>
  The four invariants of a mesh over \<open>n\<close> points, as the specification lists them:
  three indices per triangle, every index in \<open>[0, n)\<close>, the three indices different,
  and no two triangles with the same vertex set.
\<close>

definition mesh_invariants :: "int \<Rightarrow> Triangle list \<Rightarrow> bool" where
  "mesh_invariants n ts =
     ((\<forall>t \<in> set ts. length t = 3 \<and> (\<forall>x \<in> set t. 0 \<le> x \<and> x < n) \<and> distinct t)
      \<and> distinct (map set ts))"

text \<open>
  The triangle list that \<open>triangulate\<close> hands to the constructor of \<open>Triangles\<close> at
  the end of a run.
\<close>

definition handed_triangles :: "run_state \<Rightarrow> Triangle list" where
  "handed_triangles st =
     map tuple_list (final_triangles (int (length (ps_points st))) (triangulation st))"

text \<open>The float \<open>2.0\<close>, and three points on a line with the buffer that holds them.\<close>

definition two_f :: pyfloat where
  "two_f = Finite False 4503599627370496 (- 51)"

definition collinear_points :: PointSet where
  "collinear_points = \<lparr>points = [(zero_f, zero_f), (one_f, zero_f), (two_f, zero_f)]\<rparr>"

definition collinear_buffer :: "byte list" where
  "collinear_buffer =
     [3, 0, 0, 0,
      0, 0, 0, 0,  0, 0, 0, 0,
      0, 0, 0x80, 0x3F,  0, 0, 0, 0,
      0, 0, 0, 0x40,  0, 0, 0, 0]"












section \<open>Mesh construction\<close>

lemma len3: "length t = 3 \<longleftrightarrow> (\<exists>i j k. t = [i, j, k])"
  by (auto simp: numeral_3_eq_3 length_Suc_conv)

lemma validate_step:
  assumes "length t = 3"
  shows "validate_indices_number t = Inr ()"
    and "validate_indices_in_range t nb =
           (if \<exists>x \<in> set t. x < 0 \<or> nb \<le> x then Inl (ValueError (violation_message OutOfRange)) else Inr ())"
    and "validate_distinct_vertices t =
           (if \<not> distinct t then Inl (ValueError (violation_message NonDistinct)) else Inr ())"
    and "validate_not_duplicate t seen =
           (if sort t \<in> seen then Inl (ValueError (violation_message DuplicateTri))
            else Inr (insert (sort t) seen))"
proof -
  from assms obtain i j k where t: "t = [i, j, k]" by (auto simp: len3)
  show "validate_indices_number t = Inr ()" by (simp add: validate_indices_number_def assms)
  show "validate_indices_in_range t nb =
           (if \<exists>x \<in> set t. x < 0 \<or> nb \<le> x then Inl (ValueError (violation_message OutOfRange)) else Inr ())"
    unfolding t by (auto simp: validate_indices_in_range_def unpack3_def)
  have "card (set t) = 3 \<longleftrightarrow> distinct t"
    unfolding t by (simp add: card_insert_if)
  then show "validate_distinct_vertices t =
           (if \<not> distinct t then Inl (ValueError (violation_message NonDistinct)) else Inr ())"
    by (simp add: validate_distinct_vertices_def)
  show "validate_not_duplicate t seen =
           (if sort t \<in> seen then Inl (ValueError (violation_message DuplicateTri))
            else Inr (insert (sort t) seen))"
    unfolding t
    by (simp only: validate_not_duplicate_def unpack3_def Let_def list.case sum.case prod.case
          violation_message.simps)
qed

lemma validate_loop_cons:
  "validate_loop nb (sort ` set prev) (t # rest) =
     (case violation_of nb prev t of
        Some v \<Rightarrow> Inl (ValueError (violation_message v))
      | None \<Rightarrow> validate_loop nb (sort ` set (prev @ [t])) rest)"
proof (cases "length t = 3")
  case False
  then show ?thesis
    by (simp add: violation_of_def validate_indices_number_def)
next
  case True
  show ?thesis
    by (simp add: validate_step[OF True] violation_of_def True)
qed

lemma validate_loop_char:
  "validate_loop nb (sort ` set prev) ts = Inl e \<longleftrightarrow>
     (\<exists>i < length ts. (\<forall>j < i. violation_of nb (prev @ take j ts) (ts ! j) = None) \<and>
        (\<exists>v. violation_of nb (prev @ take i ts) (ts ! i) = Some v \<and> e = ValueError (violation_message v)))"
proof (induction ts arbitrary: prev)
  case Nil
  then show ?case by simp
next
  case (Cons t ts)
  show ?case
  proof (cases "violation_of nb prev t")
    case (Some v)
    have "(\<exists>i < length (t # ts). (\<forall>j < i. violation_of nb (prev @ take j (t # ts)) ((t # ts) ! j) = None) \<and>
        (\<exists>v. violation_of nb (prev @ take i (t # ts)) ((t # ts) ! i) = Some v \<and> e = ValueError (violation_message v)))
       \<longleftrightarrow> e = ValueError (violation_message v)" (is "?L \<longleftrightarrow> ?R")
    proof
      assume ?L
      then obtain i where i: "i < length (t # ts)"
        "\<forall>j < i. violation_of nb (prev @ take j (t # ts)) ((t # ts) ! j) = None"
        "\<exists>v. violation_of nb (prev @ take i (t # ts)) ((t # ts) ! i) = Some v \<and> e = ValueError (violation_message v)"
        by blast
      have "i = 0"
      proof (rule ccontr)
        assume "i \<noteq> 0"
        then have "violation_of nb (prev @ take 0 (t # ts)) ((t # ts) ! 0) = None" using i(2) by blast
        with Some show False by simp
      qed
      with i(3) Some show ?R by simp
    next
      assume ?R
      then show ?L using Some by (intro exI[of _ 0]) simp
    qed
    moreover have "validate_loop nb (sort ` set prev) (t # ts) = Inl (ValueError (violation_message v))"
      by (simp only: validate_loop_cons Some option.case)
    ultimately show ?thesis by (simp only:) blast
  next
    case None
    have "(\<exists>i < length (t # ts). (\<forall>j < i. violation_of nb (prev @ take j (t # ts)) ((t # ts) ! j) = None) \<and>
        (\<exists>v. violation_of nb (prev @ take i (t # ts)) ((t # ts) ! i) = Some v \<and> e = ValueError (violation_message v)))
       \<longleftrightarrow> (\<exists>i < length ts. (\<forall>j < i. violation_of nb ((prev @ [t]) @ take j ts) (ts ! j) = None) \<and>
        (\<exists>v. violation_of nb ((prev @ [t]) @ take i ts) (ts ! i) = Some v \<and> e = ValueError (violation_message v)))"
      (is "?L \<longleftrightarrow> ?R")
    proof
      assume ?L
      then obtain i where i: "i < length (t # ts)"
        "\<forall>j < i. violation_of nb (prev @ take j (t # ts)) ((t # ts) ! j) = None"
        "\<exists>v. violation_of nb (prev @ take i (t # ts)) ((t # ts) ! i) = Some v \<and> e = ValueError (violation_message v)"
        by blast
      from i(3) None obtain i' where i': "i = Suc i'" by (cases i) auto
      have "\<forall>j < i'. violation_of nb ((prev @ [t]) @ take j ts) (ts ! j) = None"
      proof (intro allI impI)
        fix j assume "j < i'"
        then have "Suc j < i" using i' by simp
        with i(2) have "violation_of nb (prev @ take (Suc j) (t # ts)) ((t # ts) ! Suc j) = None" by blast
        then show "violation_of nb ((prev @ [t]) @ take j ts) (ts ! j) = None" by simp
      qed
      moreover have "i' < length ts" using i(1) i' by simp
      moreover have "\<exists>v. violation_of nb ((prev @ [t]) @ take i' ts) (ts ! i') = Some v \<and> e = ValueError (violation_message v)"
        using i(3) i' by simp
      ultimately show ?R by blast
    next
      assume ?R
      then obtain i where i: "i < length ts"
        "\<forall>j < i. violation_of nb ((prev @ [t]) @ take j ts) (ts ! j) = None"
        "\<exists>v. violation_of nb ((prev @ [t]) @ take i ts) (ts ! i) = Some v \<and> e = ValueError (violation_message v)"
        by blast
      have "\<forall>j < Suc i. violation_of nb (prev @ take j (t # ts)) ((t # ts) ! j) = None"
      proof (intro allI impI)
        fix j assume j: "j < Suc i"
        show "violation_of nb (prev @ take j (t # ts)) ((t # ts) ! j) = None"
        proof (cases j)
          case 0 then show ?thesis using None by simp
        next
          case (Suc j')
          then have "j' < i" using j by simp
          with i(2) show ?thesis using Suc by simp
        qed
      qed
      then show ?L using i(1) i(3) by (intro exI[of _ "Suc i"]) simp
    qed
    moreover have "validate_loop nb (sort ` set prev) (t # ts) =
        validate_loop nb (sort ` set (prev @ [t])) ts"
      by (simp only: validate_loop_cons None option.case)
    ultimately show ?thesis using Cons.IH[of "prev @ [t]"] by (simp only:)
  qed
qed

section \<open>Construction of the Triangulator\<close>

lemma no_duplicates_loop_char:
  "no_duplicates_loop seen pts =
     (if \<exists>j < length pts. \<exists>k \<in> set (seen @ take j pts). point_eq (pts ! j) k
      then Inl DuplicatePoints else Inr ())"
proof (induction pts arbitrary: seen)
  case Nil
  then show ?case by simp
next
  case (Cons p pts)
  show ?case
  proof (cases "list_ex (point_eq p) seen")
    case True
    then have "\<exists>k \<in> set (seen @ take 0 (p # pts)). point_eq ((p # pts) ! 0) k"
      by (simp add: list_ex_iff)
    then have "\<exists>j < length (p # pts). \<exists>k \<in> set (seen @ take j (p # pts)). point_eq ((p # pts) ! j) k"
      by (intro exI[of _ 0]) simp
    then show ?thesis using True by (simp add: DuplicatePoints_def)
  next
    case False
    have "(\<exists>j < length (p # pts). \<exists>k \<in> set (seen @ take j (p # pts)). point_eq ((p # pts) ! j) k)
      \<longleftrightarrow> (\<exists>j < length pts. \<exists>k \<in> set ((seen @ [p]) @ take j pts). point_eq (pts ! j) k)"
      (is "?L \<longleftrightarrow> ?R")
    proof
      assume ?L
      then obtain j where j: "j < length (p # pts)"
        "\<exists>k \<in> set (seen @ take j (p # pts)). point_eq ((p # pts) ! j) k" by blast
      from j(2) False obtain j' where j': "j = Suc j'"
        by (cases j) (auto simp: list_ex_iff)
      with j show ?R by (intro exI[of _ j']) simp
    next
      assume ?R
      then obtain j where "j < length pts"
        "\<exists>k \<in> set ((seen @ [p]) @ take j pts). point_eq (pts ! j) k" by blast
      then show ?L by (intro exI[of _ "Suc j"]) simp
    qed
    then show ?thesis using False Cons.IH[of "seen @ [p]"] by simp
  qed
qed

lemma has_equal_pair_alt:
  "has_equal_pair pts \<longleftrightarrow> (\<exists>j < length pts. \<exists>k \<in> set (take j pts). point_eq (pts ! j) k)"
proof
  assume "has_equal_pair pts"
  then obtain i j where ij: "i < j" "j < length pts" "point_eq (pts ! j) (pts ! i)"
    by (auto simp: has_equal_pair_def)
  then have "pts ! i \<in> set (take j pts)"
    by (metis in_set_conv_nth length_take min.absorb2 nth_take order.strict_implies_order)
  with ij show "\<exists>j < length pts. \<exists>k \<in> set (take j pts). point_eq (pts ! j) k" by blast
next
  assume "\<exists>j < length pts. \<exists>k \<in> set (take j pts). point_eq (pts ! j) k"
  then obtain j k where jk: "j < length pts" "k \<in> set (take j pts)" "point_eq (pts ! j) k" by blast
  then obtain i where "i < j" "k = pts ! i"
    by (auto simp: in_set_conv_nth)
  with jk show "has_equal_pair pts" by (auto simp: has_equal_pair_def)
qed

text \<open>
  Claim C3, amended. Construction fails with InsufficientPoints on fewer than 3
  points; on at least 3 points it fails with DuplicatePoints exactly when two of
  them are equal coordinate by coordinate, and otherwise yields the Triangulator.
  The count is checked first, so a collection of fewer than 3 points that holds
  an equal pair fails with InsufficientPoints.
\<close>

theorem C3_construction_checks:
  "Triangulator_init ps =
     (if length (points ps) < 3 then Inl InsufficientPoints
      else if has_equal_pair (points ps) then Inl DuplicatePoints
      else Inr \<lparr>point_set = ps\<rparr>)"
proof -
  have "validate_no_duplicates (points ps) =
          (if has_equal_pair (points ps) then Inl DuplicatePoints else Inr ())"
    unfolding validate_no_duplicates_def has_equal_pair_alt
    using no_duplicates_loop_char[of "[]" "points ps"] by simp
  then show ?thesis
    by (simp add: Triangulator_init_def validate_min_points_def InsufficientPoints_def)
qed

theorem C3_counterexample:
  "point_eq ([(zero_f, zero_f), (zero_f, zero_f)] ! 1) ([(zero_f, zero_f), (zero_f, zero_f)] ! 0)
   \<and> Triangulator_init \<lparr>points = [(zero_f, zero_f), (zero_f, zero_f)]\<rparr> = Inl InsufficientPoints
   \<and> Triangulator_init \<lparr>points = [(zero_f, zero_f), (zero_f, zero_f)]\<rparr> \<noteq> Inl DuplicatePoints"
  by (simp add: Triangulator_init_def validate_min_points_def InsufficientPoints_def
      DuplicatePoints_def point_eq_def zero_f_def sgn_int_def)

theorem C3_witness:
  "Triangulator_init \<lparr>points = [(zero_f, zero_f), (one_f, zero_f), (zero_f, zero_f)]\<rparr>
     = Inl DuplicatePoints
   \<and> Triangulator_init \<lparr>points = [(zero_f, zero_f), (one_f, zero_f)]\<rparr> = Inl InsufficientPoints
   \<and> Triangulator_init \<lparr>points = [(zero_f, zero_f), (one_f, zero_f), (zero_f, one_f)]\<rparr>
     = Inr \<lparr>point_set = \<lparr>points = [(zero_f, zero_f), (one_f, zero_f), (zero_f, one_f)]\<rparr>\<rparr>"
proof -
  have a: "has_equal_pair [(zero_f, zero_f), (one_f, zero_f), (zero_f, zero_f)]"
    unfolding has_equal_pair_def
    by (intro exI[of _ 0] exI[of _ 2]) (simp add: point_eq_def zero_f_def sgn_int_def)
  have "no_duplicates_loop [] [(zero_f, zero_f), (one_f, zero_f), (zero_f, one_f)] = Inr ()"
    by (simp add: point_eq_def zero_f_def one_f_def sgn_int_def)
  then have b: "\<not> has_equal_pair [(zero_f, zero_f), (one_f, zero_f), (zero_f, one_f)]"
    unfolding has_equal_pair_alt
    using no_duplicates_loop_char[of "[]" "[(zero_f, zero_f), (one_f, zero_f), (zero_f, one_f)]"]
    by (simp split: if_splits)
  show ?thesis
    using C3_construction_checks[of "\<lparr>points = [(zero_f, zero_f), (one_f, zero_f), (zero_f, zero_f)]\<rparr>"]
      C3_construction_checks[of "\<lparr>points = [(zero_f, zero_f), (one_f, zero_f)]\<rparr>"]
      C3_construction_checks[of "\<lparr>points = [(zero_f, zero_f), (one_f, zero_f), (zero_f, one_f)]\<rparr>"]
      a b
    by simp
qed

text \<open>
  Claim C8, amended. Mesh construction succeeds exactly when no triangle commits a
  violation, and fails with the message of the first violation of the first
  offending triangle, the four checks taken in the order count, range, distinct
  vertices, duplicate. The four messages differ, so the error tells which invariant
  was broken; it does not tell which triangle broke it.
\<close>

theorem C8_checks_in_order:
  "(Triangles_init ps ts = Inr m \<longleftrightarrow>
      m = \<lparr>pointset = ps, triangles = ts\<rparr> \<and>
      (\<forall>i < length ts. violation_of (int (length (points ps))) (take i ts) (ts ! i) = None))
   \<and> (Triangles_init ps ts = Inl e \<longleftrightarrow>
      (\<exists>i < length ts.
         (\<forall>j < i. violation_of (int (length (points ps))) (take j ts) (ts ! j) = None) \<and>
         (\<exists>v. violation_of (int (length (points ps))) (take i ts) (ts ! i) = Some v \<and>
              e = ValueError (violation_message v))))
   \<and> inj violation_message"
proof -
  let ?n = "int (length (points ps))"
  have loop: "validate_triangles \<lparr>pointset = ps, triangles = ts\<rparr> = validate_loop ?n (sort ` set []) ts"
    by (simp add: validate_triangles_def)
  have E: "\<And>e. validate_loop ?n (sort ` set []) ts = Inl e \<longleftrightarrow>
      (\<exists>i < length ts.
         (\<forall>j < i. violation_of ?n (take j ts) (ts ! j) = None) \<and>
         (\<exists>v. violation_of ?n (take i ts) (ts ! i) = Some v \<and> e = ValueError (violation_message v)))"
    using validate_loop_char[of ?n "[]" ts] by simp
  have ok: "(\<exists>u. validate_loop ?n (sort ` set []) ts = Inr u) \<longleftrightarrow>
      (\<forall>i < length ts. violation_of ?n (take i ts) (ts ! i) = None)"
  proof
    assume "\<exists>u. validate_loop ?n (sort ` set []) ts = Inr u"
    then have no: "\<And>e. validate_loop ?n (sort ` set []) ts \<noteq> Inl e" by auto
    show "\<forall>i < length ts. violation_of ?n (take i ts) (ts ! i) = None"
    proof (intro allI impI)
      fix i assume "i < length ts"
      then show "violation_of ?n (take i ts) (ts ! i) = None"
      proof (induction i rule: less_induct)
        case (less i)
        show ?case
        proof (rule ccontr)
          assume "violation_of ?n (take i ts) (ts ! i) \<noteq> None"
          then obtain v where "violation_of ?n (take i ts) (ts ! i) = Some v" by auto
          with less have "validate_loop ?n (sort ` set []) ts = Inl (ValueError (violation_message v))"
            by (subst E) (metis less_trans)
          with no show False by blast
        qed
      qed
    qed
  next
    assume a: "\<forall>i < length ts. violation_of ?n (take i ts) (ts ! i) = None"
    have "\<And>e. validate_loop ?n (sort ` set []) ts \<noteq> Inl e"
      using a by (subst E) auto
    then show "\<exists>u. validate_loop ?n (sort ` set []) ts = Inr u"
      by (cases "validate_loop ?n (sort ` set []) ts") auto
  qed
  have 1: "Triangles_init ps ts = Inr m \<longleftrightarrow>
      m = \<lparr>pointset = ps, triangles = ts\<rparr> \<and>
      (\<forall>i < length ts. violation_of ?n (take i ts) (ts ! i) = None)"
    unfolding ok[symmetric] Triangles_init_def Let_def loop
    by (cases "validate_loop ?n (sort ` set []) ts") auto
  have 2: "Triangles_init ps ts = Inl e \<longleftrightarrow>
      (\<exists>i < length ts.
         (\<forall>j < i. violation_of ?n (take j ts) (ts ! j) = None) \<and>
         (\<exists>v. violation_of ?n (take i ts) (ts ! i) = Some v \<and> e = ValueError (violation_message v)))"
    unfolding E[symmetric] Triangles_init_def Let_def loop
    by (cases "validate_loop ?n (sort ` set []) ts") auto
  have 3: "inj violation_message"
  proof (rule injI)
    fix x y assume "violation_message x = violation_message y"
    then show "x = y" by (cases x; cases y) simp_all
  qed
  from 1 2 3 show ?thesis by blast
qed


theorem C8_counterexample:
  "violation_of 3 [] [0, 0, 1] = Some NonDistinct
   \<and> Triangles_init three_points [[0, 0, 1], [0, 1, 2]]
       = Inl (ValueError ''a triangle must reference three distinct points'')
   \<and> violation_of 3 [] [0, 1, 2] = None
   \<and> violation_of 3 [[0, 1, 2]] [1, 1, 2] = Some NonDistinct
   \<and> Triangles_init three_points [[0, 1, 2], [1, 1, 2]]
       = Inl (ValueError ''a triangle must reference three distinct points'')"
  by (simp add: violation_of_def Triangles_init_def validate_triangles_def three_points_def
      validate_indices_number_def validate_indices_in_range_def unpack3_def
      validate_distinct_vertices_def validate_not_duplicate_def card_insert_if)

theorem C8_witness:
  "Triangles_init three_points [[0, 1, 2], [0, 2, 1]] = Inl (ValueError ''duplicate triangles'')
   \<and> Triangles_init three_points [[0, 1, 2]] = Inr \<lparr>pointset = three_points, triangles = [[0, 1, 2]]\<rparr>"
proof -
  have a: "violation_of 3 [] [0, 1, 2] = None" "violation_of 3 [[0, 1, 2]] [0, 2, 1] = Some DuplicateTri"
    by (simp_all add: violation_of_def)
  have n: "int (length (points three_points)) = 3" by (simp add: three_points_def)
  have "\<exists>i < length [[0, 1, 2], [0, 2, 1::int]].
         (\<forall>j < i. violation_of 3 (take j [[0, 1, 2], [0, 2, 1]]) ([[0, 1, 2], [0, 2, 1]] ! j) = None) \<and>
         (\<exists>v. violation_of 3 (take i [[0, 1, 2], [0, 2, 1]]) ([[0, 1, 2], [0, 2, 1]] ! i) = Some v \<and>
              ValueError ''duplicate triangles'' = ValueError (violation_message v))"
    using a by (intro exI[of _ 1]) simp
  then have 1: "Triangles_init three_points [[0, 1, 2], [0, 2, 1]] = Inl (ValueError ''duplicate triangles'')"
    using C8_checks_in_order[of three_points "[[0, 1, 2], [0, 2, 1]]" undefined
        "ValueError ''duplicate triangles''"] n
    by simp
  have 2: "Triangles_init three_points [[0, 1, 2]] = Inr \<lparr>pointset = three_points, triangles = [[0, 1, 2]]\<rparr>"
    using C8_checks_in_order[of three_points "[[0, 1, 2]]"
        "\<lparr>pointset = three_points, triangles = [[0, 1, 2]]\<rparr>" undefined] n a
    by simp
  from 1 2 show ?thesis by blast
qed

section \<open>The point codec\<close>

lemma bitlen_eqI:
  assumes "2 ^ k \<le> x" "x < 2 ^ Suc k"
  shows "bitlen x = int (Suc k)"
proof -
  have n: "nat (int (Suc k)) = Suc k" "nat (int (Suc k)) - 1 = k" by simp_all
  have "bitlen x \<le> int (Suc k)"
    using assms(2) unfolding bitlen_le_iff_power n by simp
  moreover have "int (Suc k) \<le> bitlen x"
    using assms(1) unfolding bitlen_ge_iff_power n by simp
  ultimately show ?thesis by (rule order_antisym)
qed

lemma rne_exact: "0 < sh \<Longrightarrow> rne (a * 2 ^ sh) sh = a"
  by (simp add: rne_def Let_def)

lemma bits_split:
  fixes w :: int
  assumes "0 \<le> w" "w < 2 ^ 32"
  shows "w = bits32 (w div 2 ^ 31 mod 2 = 1) (w div 2 ^ 23 mod 256) (w mod 2 ^ 23)"
proof -
  define a where "a = w div 8388608"
  define r where "r = w mod 8388608"
  define q where "q = a div 256"
  define t where "t = a mod 256"
  have d1: "w = 8388608 * a + r" unfolding a_def r_def by (rule mult_div_mod_eq[symmetric])
  have d2: "a = 256 * q + t" unfolding q_def t_def by (rule mult_div_mod_eq[symmetric])
  have r: "0 \<le> r" "r < 8388608" unfolding r_def by simp_all
  have t: "0 \<le> t" "t < 256" unfolding t_def by simp_all
  have w: "0 \<le> w" "w < 4294967296" using assms by simp_all
  have q: "0 \<le> q" "q \<le> 1" using d1 d2 r t w by linarith+
  have "w div 2147483648 = w div (8388608 * 256)" by simp
  also have "\<dots> = w div 8388608 div 256" by (rule zdiv_zmult2_eq) simp
  finally have c: "w div 2147483648 = q" by (simp add: q_def a_def)
  have f1: "w div 2 ^ 31 = q" using c by simp
  have f2: "w div 2 ^ 23 mod 256 = t" by (simp add: t_def a_def)
  have f3: "w mod 2 ^ 23 = r" by (simp add: r_def)
  from q consider "q = 0" | "q = 1" by linarith
  then have "w = (if q mod 2 = 1 then 2147483648 else 0) + t * 8388608 + r"
  proof cases
    case 1 then show ?thesis using d1 d2 by simp
  next
    case 2 then show ?thesis using d1 d2 by simp
  qed
  then show ?thesis unfolding bits32_def f1 f2 f3 by simp
qed

lemma float_of_bits32_unfold: 
  fixes w :: int
  shows "float_of_bits32 w =
      (if w div 2 ^ 23 mod 256 = 255 then (if w mod 2 ^ 23 = 0 then Infinity (w div 2 ^ 31 mod 2 = 1) else NaN (w div 2 ^ 31 mod 2 = 1) ((2 ^ 22 + w mod 2 ^ 23 mod 2 ^ 22) * 2 ^ 29))
       else if w div 2 ^ 23 mod 256 = 0 then
         (if w mod 2 ^ 23 = 0 then Finite (w div 2 ^ 31 mod 2 = 1) 0 (- 1074)
          else Finite (w div 2 ^ 31 mod 2 = 1) (w mod 2 ^ 23 * 2 ^ nat (53 - bitlen (w mod 2 ^ 23))) (- 149 - int (nat (53 - bitlen (w mod 2 ^ 23)))))
       else Finite (w div 2 ^ 31 mod 2 = 1) ((2 ^ 23 + w mod 2 ^ 23) * 2 ^ 29) (w div 2 ^ 23 mod 256 - 179))"
  unfolding float_of_bits32_def Let_def by (rule refl)

lemma fr_split:
  fixes fr :: int
  assumes fr: "0 \<le> fr" "fr < 2 ^ 23"
  shows "(fr < 2 ^ 22 \<and> fr mod 2 ^ 22 = fr) \<or> (2 ^ 22 \<le> fr \<and> fr mod 2 ^ 22 = fr - 2 ^ 22)"
proof (cases "fr < 2 ^ 22")
  case True
  then show ?thesis using fr by simp
next
  case False
  then have "0 \<le> fr - 2 ^ 22" "fr - 2 ^ 22 < 2 ^ 22" using fr by simp_all
  then have "(fr - 2 ^ 22) mod 2 ^ 22 = fr - 2 ^ 22" by (rule mod_pos_pos_trivial)
  moreover have "(fr - 2 ^ 22) mod 2 ^ 22 = fr mod 2 ^ 22" by (rule mod_diff_eq[symmetric, THEN trans]) simp
  ultimately show ?thesis using False by simp
qed

lemma round32_subnormal:
  assumes fr: "0 < fr" "fr < 2 ^ 23"
  shows "round32 s (fr * 2 ^ nat (53 - bitlen fr)) (- 149 - int (nat (53 - bitlen fr)))
           = Finite s fr (- 149)"
proof -
  have bl: "bitlen fr \<le> 23" using fr by (simp add: bitlen_le_iff_power)
  define k where "k = nat (53 - bitlen fr)"
  have k: "30 \<le> k" "int k = 53 - bitlen fr" using bl by (simp_all add: k_def)
  have bn: "bitlen (fr * 2 ^ k) = 53" using fr(1) k by simp
  have nz: "fr * 2 ^ k \<noteq> 0" using fr(1) by simp
  have sh: "max (bitlen (fr * 2 ^ k) - int 24) (- 149 - (- 149 - int k)) = int k"
    unfolding bn using k(1) by simp
  have kp: "\<not> int k \<le> 0" "nat (int k) = k" "0 < k" using k(1) by simp_all
  have rn: "rne (fr * 2 ^ k) k = fr" using kp(3) by (rule rne_exact)
  have ne: "fr \<noteq> 2 ^ 24" using fr(2) by simp
  have e: "- 149 - int k + int k = - 149" "\<not> (104::int) < - 149" by simp_all
  show ?thesis
    unfolding k_def[symmetric] round32_def round_fmt_def Let_def sh
    by (simp only: nz kp rn ne e if_False)
qed

lemma round32_normal:
  assumes fr: "0 \<le> fr" "fr < 2 ^ 23" and ex: "1 \<le> ex" "ex \<le> 254"
  shows "round32 s ((2 ^ 23 + fr) * 2 ^ 29) (ex - 179) = Finite s (2 ^ 23 + fr) (ex - 150)"
proof -
  have "(2::int) ^ 23 \<le> 2 ^ 23 + fr" "2 ^ 23 + fr < 2 ^ Suc 23" using fr by simp_all
  then have b24: "bitlen (2 ^ 23 + fr) = int (Suc 23)" by (rule bitlen_eqI)
  have pos: "0 < 2 ^ 23 + fr" using fr by simp
  have bn: "bitlen ((2 ^ 23 + fr) * 2 ^ 29) = 53"
    unfolding bitlen_pow2[OF pos] b24 by simp
  have nz: "(2 ^ 23 + fr) * 2 ^ 29 \<noteq> 0" using pos by simp
  have sh: "max (bitlen ((2 ^ 23 + fr) * 2 ^ 29) - int 24) (- 149 - (ex - 179)) = 29"
    unfolding bn using ex by simp
  have kp: "\<not> (29::int) \<le> 0" "nat 29 = 29" by simp_all
  have rn: "rne ((2 ^ 23 + fr) * 2 ^ 29) 29 = 2 ^ 23 + fr" by (rule rne_exact) simp
  have ne: "2 ^ 23 + fr \<noteq> 2 ^ 24" using fr by simp
  have e: "ex - 179 + 29 = ex - 150" "\<not> 104 < ex - 150" using ex by simp_all
  show ?thesis
    unfolding round32_def round_fmt_def Let_def sh
    by (simp only: nz kp rn ne e if_False)
qed

lemma float_bits_roundtrip:
  assumes w: "0 \<le> w" "w < 2 ^ 32"
  shows "bits32_of_float (float_of_bits32 w) = Inr (quiet32 w)"
proof -
  define s where "s = (w div 2 ^ 31 mod 2 = 1)"
  define ex where "ex = w div 2 ^ 23 mod 256"
  define fr where "fr = w mod 2 ^ 23"
  have W: "w = bits32 s ex fr"
    unfolding s_def ex_def fr_def by (rule bits_split[OF w])
  have fr: "0 \<le> fr" "fr < 2 ^ 23" by (simp_all add: fr_def)
  have ex: "0 \<le> ex" "ex < 256" by (simp_all add: ex_def)
  have sg: "signalling32 w \<longleftrightarrow> ex = 255 \<and> fr \<noteq> 0 \<and> fr < 2 ^ 22"
    unfolding signalling32_def ex_def fr_def by (rule refl)
  have F: "float_of_bits32 w =
      (if ex = 255 then (if fr = 0 then Infinity s else NaN s ((2 ^ 22 + fr mod 2 ^ 22) * 2 ^ 29))
       else if ex = 0 then
         (if fr = 0 then Finite s 0 (- 1074)
          else Finite s (fr * 2 ^ nat (53 - bitlen fr)) (- 149 - int (nat (53 - bitlen fr))))
       else Finite s ((2 ^ 23 + fr) * 2 ^ 29) (ex - 179))"
    unfolding s_def ex_def fr_def by (rule float_of_bits32_unfold)
  consider (inf) "ex = 255" "fr = 0" | (nan) "ex = 255" "fr \<noteq> 0"
    | (zero) "ex = 0" "fr = 0" | (sub) "ex = 0" "fr \<noteq> 0" | (norm) "ex \<noteq> 0" "ex \<noteq> 255"
    by blast
  then show ?thesis
  proof cases
    case inf
    then have "quiet32 w = w" by (simp add: quiet32_def sg)
    moreover have "bits32_of_float (float_of_bits32 w) = Inr (bits32 s 255 0)"
      unfolding F using inf by simp
    ultimately show ?thesis using W inf by simp
  next
    case nan
    have q: "((2 ^ 22 + fr mod 2 ^ 22) * 2 ^ 29) div 2 ^ 29 mod 2 ^ 22 = fr mod (2 ^ 22 :: int)"
      by simp
    have "bits32_of_float (float_of_bits32 w) = Inr (bits32 s 255 (2 ^ 22 + fr mod 2 ^ 22))"
    proof -
      have "float_of_bits32 w = NaN s ((2 ^ 22 + fr mod 2 ^ 22) * 2 ^ 29)"
        unfolding F using nan by simp
      then show ?thesis by (simp only: bits32_of_float.simps q)
    qed
    moreover have "bits32 s 255 (2 ^ 22 + fr mod 2 ^ 22) = quiet32 w"
    proof (cases "fr < 2 ^ 22")
      case True
      then have "fr mod 2 ^ 22 = fr" using fr_split[OF fr] by simp
      moreover have "quiet32 w = bits32 s ex fr + 2 ^ 22"
        using True nan sg W by (simp add: quiet32_def)
      ultimately show ?thesis using nan by (simp add: bits32_def)
    next
      case False
      then have "fr mod 2 ^ 22 = fr - 2 ^ 22" using fr_split[OF fr] by simp
      moreover have "quiet32 w = bits32 s ex fr"
        using False nan sg W by (simp add: quiet32_def)
      ultimately show ?thesis using nan by (simp add: bits32_def)
    qed
    ultimately show ?thesis by simp
  next
    case zero
    then have "quiet32 w = w" by (simp add: quiet32_def sg)
    moreover have "round32 s 0 (- 1074) = Finite s 0 (- 149)"
      by (simp add: round32_def round_fmt_def)
    then have "bits32_of_float (float_of_bits32 w) = Inr (bits32 s 0 0)"
      unfolding F using zero by simp
    ultimately show ?thesis using W zero by simp
  next
    case sub
    then have "quiet32 w = w" by (simp add: quiet32_def sg)
    moreover have "0 < fr" using sub fr by simp
    then have "round32 s (fr * 2 ^ nat (53 - bitlen fr)) (- 149 - int (nat (53 - bitlen fr)))
           = Finite s fr (- 149)" using fr(2) by (rule round32_subnormal)
    then have "bits32_of_float (float_of_bits32 w) = Inr (bits32 s 0 fr)"
      unfolding F using sub fr(2) by simp
    ultimately show ?thesis using W sub by simp
  next
    case norm
    then have "quiet32 w = w" by (simp add: quiet32_def sg)
    moreover have ex1: "1 \<le> ex" "ex \<le> 254" using norm ex by simp_all
    then have "round32 s ((2 ^ 23 + fr) * 2 ^ 29) (ex - 179) = Finite s (2 ^ 23 + fr) (ex - 150)"
      using fr by (intro round32_normal)
    moreover have "\<not> 2 ^ 23 + fr < 2 ^ 23" using fr by simp
    ultimately have "bits32_of_float (float_of_bits32 w) = Inr (bits32 s ex fr)"
      unfolding F using norm by simp
    then show ?thesis using W \<open>quiet32 w = w\<close> by simp
  qed
qed

lemma divmod_base:
  fixes b :: int
  assumes "0 \<le> r" "r < b"
  shows "(b * a + r) mod b = r" and "(b * a + r) div b = a"
  using assms by (simp_all add: mod_pos_pos_trivial div_pos_pos_trivial)

lemma quiet32_range:
  assumes w: "0 \<le> w" "w < 2 ^ 32"
  shows "0 \<le> quiet32 w \<and> quiet32 w < 2 ^ 32"
proof (cases "signalling32 w")
  case False then show ?thesis using w by (simp add: quiet32_def)
next
  case True
  define s where "s = (w div 2 ^ 31 mod 2 = 1)"
  define fr where "fr = w mod 2 ^ 23"
  have W: "w = bits32 s 255 fr"
    using bits_split[OF w] True unfolding s_def fr_def signalling32_def by simp
  from True have t: "fr < 2 ^ 22" by (simp add: signalling32_def fr_def)
  have "w + 2 ^ 22 < 2 ^ 32" using t by (subst W) (simp add: bits32_def)
  then show ?thesis using w True by (simp add: quiet32_def)
qed

lemma float_of_quiet32:
  assumes w: "0 \<le> w" "w < 2 ^ 32"
  shows "float_of_bits32 (quiet32 w) = float_of_bits32 w"
proof -
  have "bits32_of_float (float_of_bits32 (quiet32 w)) = Inr (quiet32 (quiet32 w))"
    using quiet32_range[OF w] by (intro float_bits_roundtrip) simp_all
  show ?thesis
  proof (cases "signalling32 w")
    case False then show ?thesis by (simp add: quiet32_def)
  next
    case True
    define s where "s = (w div 2 ^ 31 mod 2 = 1)"
    define fr where "fr = w mod 2 ^ 23"
    have W: "w = bits32 s 255 fr"
      using bits_split[OF w] True unfolding s_def fr_def signalling32_def by simp
    have "0 \<le> fr" by (simp add: fr_def)
    moreover have "fr \<noteq> 0" "fr < 2 ^ 22" using True unfolding signalling32_def fr_def by simp_all
    ultimately have fr: "0 < fr" "fr < 2 ^ 22" by simp_all
    have q: "quiet32 w = w + 2 ^ 22" using True by (simp add: quiet32_def)
    have e: "w + 2 ^ 22 = 2 ^ 23 * ((if s then 256 else 0) + 255) + (fr + 2 ^ 22)"
      by (subst W) (simp add: bits32_def)
    have e0: "w = 2 ^ 23 * ((if s then 256 else 0) + 255) + fr"
      by (subst W) (simp add: bits32_def)
    have r1: "0 \<le> fr + 2 ^ 22" "fr + 2 ^ 22 < 2 ^ 23" using fr by simp_all
    have m1: "(w + 2 ^ 22) mod 2 ^ 23 = fr + 2 ^ 22"
      unfolding e using r1 by (intro divmod_base(1)) simp_all
    have d1: "(w + 2 ^ 22) div 2 ^ 23 = (if s then 256 else 0) + 255"
      unfolding e using r1 by (intro divmod_base(2)) simp_all
    have d0: "w div 2 ^ 23 = (if s then 256 else 0) + 255"
      using fr by (subst e0, intro divmod_base(2)) simp_all
    have m0: "w mod 2 ^ 23 = fr" by (simp add: fr_def)
    have s1: "(w + 2 ^ 22) div 2 ^ 31 = w div 2 ^ 31"
    proof -
      have "(w + 2 ^ 22) div 2 ^ 31 = (w + 2 ^ 22) div (2 ^ 23 * 256)" by simp
      also have "\<dots> = (w + 2 ^ 22) div 2 ^ 23 div 256" by (rule zdiv_zmult2_eq) simp
      also have "\<dots> = w div 2 ^ 23 div 256" unfolding d1 d0 by (rule refl)
      also have "\<dots> = w div (2 ^ 23 * 256)" by (rule zdiv_zmult2_eq[symmetric]) simp
      also have "\<dots> = w div 2 ^ 31" by simp
      finally show ?thesis .
    qed
    have mm: "(fr + 2 ^ 22) mod 2 ^ 22 = fr mod 2 ^ 22" by simp
    have n1: "fr + 2 ^ 22 \<noteq> 0" "fr \<noteq> 0" using fr by simp_all
    have "float_of_bits32 (w + 2 ^ 22) = NaN (w div 2 ^ 31 mod 2 = 1) ((2 ^ 22 + fr mod 2 ^ 22) * 2 ^ 29)"
      unfolding float_of_bits32_unfold m1 d1 s1 mm using n1 by (cases s) simp_all
    moreover have "float_of_bits32 w = NaN (w div 2 ^ 31 mod 2 = 1) ((2 ^ 22 + fr mod 2 ^ 22) * 2 ^ 29)"
      unfolding float_of_bits32_unfold m0 d0 using n1 by (cases s) simp_all
    ultimately show ?thesis unfolding q by simp
  qed
qed

lemma le_decode_bounds: "0 \<le> le_decode bs \<and> le_decode bs < 256 ^ length bs"
proof (induction bs)
  case Nil
  then show ?case by simp
next
  case (Cons b bs)
  have "0 \<le> uint b" "uint b < 256" using uint_bounded[of b] by simp_all
  then show ?case using Cons by simp
qed

lemma le_encode_decode: "length bs = k \<Longrightarrow> le_encode k (le_decode bs) = bs"
proof (induction bs arbitrary: k)
  case Nil
  then show ?case by simp
next
  case (Cons b bs)
  then obtain k' where k: "k = Suc k'" "length bs = k'" by (cases k) auto
  have u: "0 \<le> uint b" "uint b < 256" using uint_bounded[of b] by simp_all
  have m: "(uint b + 256 * le_decode bs) mod 256 = uint b" using u by simp
  have d: "(uint b + 256 * le_decode bs) div 256 = le_decode bs" using u by simp
  show ?case unfolding k(1) using Cons.IH[OF k(2)] by (simp only: le_decode.simps le_encode.simps m d word_of_int_uint)
qed

lemma length_le_encode [simp]: "length (le_encode k v) = k"
  by (induction k arbitrary: v) simp_all

lemma le_decode_encode: "0 \<le> v \<Longrightarrow> v < 256 ^ k \<Longrightarrow> le_decode (le_encode k v) = v"
proof (induction k arbitrary: v)
  case 0
  then show ?case by simp
next
  case (Suc k)
  have "0 \<le> v div 256" "v div 256 < 256 ^ k" using Suc.prems by simp_all
  then have ih: "le_decode (le_encode k (v div 256)) = v div 256" by (rule Suc.IH)
  have "uint (word_of_int (v mod 256) :: byte) = v mod 256"
    by (simp add: uint_word_of_int take_bit_eq_mod)
  then show ?case using ih by simp
qed

lemma word4_range:
  assumes "length bs \<le> 4"
  shows "0 \<le> le_decode bs" "le_decode bs < 2 ^ 32"
proof -
  have "(256::int) ^ length bs \<le> 256 ^ 4" using assms by (intro power_increasing) simp_all
  then show "0 \<le> le_decode bs" "le_decode bs < 2 ^ 32"
    using le_decode_bounds[of bs] by simp_all
qed

lemma f32_value_decode: "length bs \<le> 4 \<Longrightarrow> f32_value (float_of_bits32 (le_decode bs))"
  unfolding f32_value_def using word4_range[of bs] by blast

lemma pack_f_f32:
  assumes "0 \<le> w" "w < 2 ^ 32"
  shows "pack_f (float_of_bits32 w) = Inr (le_encode 4 (quiet32 w))"
  by (simp add: pack_f_def float_bits_roundtrip[OF assms])

lemma unpack_ff_eq:
  assumes "offset + 8 \<le> length data"
  shows "unpack_ff data offset =
           Inr (float_of_bits32 (le_decode (take 4 (drop offset data))),
                float_of_bits32 (le_decode (take 4 (drop (offset + 4) data))))"
proof -
  have "drop 4 (take 8 (drop offset data)) = take 4 (drop (offset + 4) data)"
    by (simp add: drop_take add.commute)
  then show ?thesis using assms by (simp add: unpack_ff_def read_bytes_def)
qed

lemma read_points_eq:
  "offset + 8 * n \<le> length data \<Longrightarrow>
   read_points data offset n =
     Inr (map (\<lambda>i. (float_of_bits32 (le_decode (take 4 (drop (offset + 8 * i) data))),
                     float_of_bits32 (le_decode (take 4 (drop (offset + 8 * i + 4) data))))) [0..<n])"
proof (induction n arbitrary: offset)
  case 0
  then show ?case by simp
next
  case (Suc n)
  have a: "offset + 8 \<le> length data" "(offset + 8) + 8 * n \<le> length data" using Suc.prems by simp_all
  have m: "[0..<Suc n] = 0 # map Suc [0..<n]" by (simp add: upt_conv_Cons map_Suc_upt del: upt_Suc)
  show ?case
    unfolding read_points.simps unpack_ff_eq[OF a(1)] Suc.IH[OF a(2)] m
    by (simp add: comp_def add.assoc add.left_commute)
qed

lemma build_from_bytes_eq:
  "build_from_bytes data =
     (if length data < 4 then Inl (ValueError ''buffer too short to contain point count'')
      else if int (length data) < 4 + point_count data * 8 then Inl (ValueError ''buffer too short'')
      else Inr (map (decoded_point data) [0..<nat (point_count data)]))"
proof (cases "length data < 4")
  case True
  then show ?thesis by (simp add: build_from_bytes_def)
next
  case False
  then have u: "unpack_I data 0 = Inr (point_count data)"
    by (simp add: unpack_I_def read_bytes_def point_count_def)
  show ?thesis
  proof (cases "int (length data) < 4 + point_count data * 8")
    case True
    then show ?thesis using False u by (simp add: build_from_bytes_def)
  next
    case F2: False
    have "0 \<le> point_count data" unfolding point_count_def by (rule word4_range) simp
    with F2 have "4 + 8 * nat (point_count data) \<le> length data" by simp
    then have "read_points data 4 (nat (point_count data)) =
       Inr (map (\<lambda>i. (float_of_bits32 (le_decode (take 4 (drop (4 + 8 * i) data))),
                     float_of_bits32 (le_decode (take 4 (drop (4 + 8 * i + 4) data)))))
          [0..<nat (point_count data)])"
      by (rule read_points_eq)
    also have "(\<lambda>i. (float_of_bits32 (le_decode (take 4 (drop (4 + 8 * i) data))),
                     float_of_bits32 (le_decode (take 4 (drop (4 + 8 * i + 4) data)))))
       = decoded_point data"
      by (rule ext) (simp add: decoded_point_def coord_word_def algebra_simps)
    finally have "read_points data 4 (nat (point_count data)) =
       Inr (map (decoded_point data) [0..<nat (point_count data)])" .
    then show ?thesis using False F2 u by (simp add: build_from_bytes_def)
  qed
qed

lemma pack_points_append:
  "pack_points (xs @ ys) =
     (case pack_points xs of
        Inl e \<Rightarrow> Inl e
      | Inr a \<Rightarrow> (case pack_points ys of Inl e \<Rightarrow> Inl e | Inr b \<Rightarrow> Inr (a @ b)))"
  by (induction xs) (auto split: sum.splits)

lemma coord_word_range: "0 \<le> coord_word data j" "coord_word data j < 2 ^ 32"
  unfolding coord_word_def by (rule word4_range, simp)+

lemma pack_decoded_point:
  "pack_ff (decoded_point data i) =
     Inr (le_encode 4 (quiet32 (coord_word data (2 * i)))
          @ le_encode 4 (quiet32 (coord_word data (2 * i + 1))))"
  by (simp add: pack_ff_def decoded_point_def pack_f_f32[OF coord_word_range])

lemma pack_decoded_points:
  "pack_points (map (decoded_point data) [0..<n]) =
     Inr (concat (map (\<lambda>j. le_encode 4 (quiet32 (coord_word data j))) [0..<2 * n]))"
proof (induction n)
  case 0
  then show ?case by simp
next
  case (Suc n)
  have "[0..<2 * Suc n] = [0..<2 * n] @ [2 * n, 2 * n + 1]" by simp
  then show ?case
    by (simp add: pack_points_append Suc.IH pack_decoded_point del: upt_Suc)
       (simp add: pack_points_append Suc.IH pack_decoded_point)
qed

lemma concat_chunks:
  "k * n \<le> length xs \<Longrightarrow> concat (map (\<lambda>i. take k (drop (k * i) xs)) [0..<n]) = take (k * n) xs"
proof (induction n)
  case 0
  then show ?case by simp
next
  case (Suc n)
  then have ih: "concat (map (\<lambda>i. take k (drop (k * i) xs)) [0..<n]) = take (k * n) xs" by simp
  have "take (k * Suc n) xs = take (k * n + k) xs" by (simp add: add.commute)
  also have "\<dots> = take (k * n) xs @ take k (drop (k * n) xs)" by (rule take_add)
  finally show ?case using ih by simp
qed

lemma chunk_of_concat:
  "(\<forall>j < m. length (h j) = k) \<Longrightarrow> j < m \<Longrightarrow>
   take k (drop (k * j) (concat (map h [0..<m]))) = h j"
proof (induction m)
  case 0
  then show ?case by simp
next
  case (Suc m)
  have len: "length (concat (map h [0..<m])) = k * m"
    using Suc.prems(1) by (induction m) simp_all
  show ?case
  proof (cases "j < m")
    case True
    then have "k * Suc j \<le> k * m" by (intro mult_le_mono2) simp
    then have "k * j + k \<le> k * m" by (simp add: add.commute)
    then show ?thesis using Suc True len by simp
  next
    case False
    then have "j = m" using Suc.prems(2) by simp
    then show ?thesis using len Suc.prems(1) by simp
  qed
qed

lemma length_concat_words:
  "length (concat (map (\<lambda>j. le_encode 4 (f j)) [0..<m])) = 4 * m"
  by (induction m) simp_all

lemma encode_decoded:
  assumes ok: "build_from_bytes data = Inr pts"
  shows "PointSet_to_bytes \<lparr>points = pts\<rparr> =
           Inr (take 4 data @
                concat (map (\<lambda>j. le_encode 4 (quiet32 (coord_word data j)))
                         [0..<2 * nat (point_count data)]))"
proof -
  have len: "\<not> length data < 4" and pts: "pts = map (decoded_point data) [0..<nat (point_count data)]"
    using ok unfolding build_from_bytes_eq by (auto split: if_splits)
  have c: "0 \<le> point_count data" "point_count data < 2 ^ 32"
    unfolding point_count_def by (rule word4_range, simp)+
  have "pack_I (int (length pts)) = Inr (le_encode 4 (point_count data))"
    using c by (simp add: pts pack_I_def)
  moreover have "le_encode 4 (point_count data) = take 4 data"
    unfolding point_count_def using len by (intro le_encode_decode) simp
  ultimately show ?thesis
    by (simp add: PointSet_to_bytes_def pts pack_decoded_points)
qed

text \<open>
  Claim C6, amended. For a buffer that decodes, has no bytes beyond the declared
  count and holds no signalling NaN, encoding the decoded points gives back the
  buffer byte for byte; and for every buffer that decodes, the decoded points
  encode to a buffer that decodes to the same points. A coordinate word that is
  a signalling NaN comes back with its quiet bit set.
\<close>

theorem C6_roundtrip:
  assumes ok: "build_from_bytes data = Inr pts"
  shows "(int (length data) = 4 + point_count data * 8 \<and> no_signalling data \<longrightarrow>
            PointSet_to_bytes \<lparr>points = pts\<rparr> = Inr data)
         \<and> (\<exists>buf. PointSet_to_bytes \<lparr>points = pts\<rparr> = Inr buf \<and> build_from_bytes buf = Inr pts)"
proof -
  define n where "n = nat (point_count data)"
  define h where "h = (\<lambda>j. le_encode 4 (quiet32 (coord_word data j)))"
  define buf where "buf = take 4 data @ concat (map h [0..<2 * n])"
  have enc: "PointSet_to_bytes \<lparr>points = pts\<rparr> = Inr buf"
    unfolding buf_def h_def n_def by (rule encode_decoded[OF ok])
  have len: "\<not> length data < 4" "\<not> int (length data) < 4 + point_count data * 8"
    and pts: "pts = map (decoded_point data) [0..<n]"
    using ok unfolding build_from_bytes_eq n_def by (auto split: if_splits)
  have c: "0 \<le> point_count data" "point_count data < 2 ^ 32"
    unfolding point_count_def by (rule word4_range, simp)+
  have n: "int n = point_count data" using c by (simp add: n_def)
  have fit: "4 + 8 * n \<le> length data" using len n by simp
  have a: "PointSet_to_bytes \<lparr>points = pts\<rparr> = Inr data"
    if exact: "int (length data) = 4 + point_count data * 8" and ns: "no_signalling data"
  proof -
    have "h j = take 4 (drop (4 * j) (drop 4 data))" if "j < 2 * n" for j
    proof -
      have "\<not> signalling32 (coord_word data j)"
        using ns that by (simp add: no_signalling_def n_def)
      then have "h j = le_encode 4 (le_decode (take 4 (drop (4 + 4 * j) data)))"
        by (simp add: h_def quiet32_def coord_word_def)
      also have "\<dots> = take 4 (drop (4 + 4 * j) data)"
        using that fit by (intro le_encode_decode) simp
      finally show ?thesis by (simp add: add.commute)
    qed
    then have m: "map h [0..<2 * n] = map (\<lambda>j. take 4 (drop (4 * j) (drop 4 data))) [0..<2 * n]"
      by simp
    have cc: "concat (map (\<lambda>j. take 4 (drop (4 * j) (drop 4 data))) [0..<2 * n])
        = take (4 * (2 * n)) (drop 4 data)"
      using fit by (intro concat_chunks) simp
    have ld: "length (drop 4 data) = 4 * (2 * n)" using exact n by simp
    have "buf = take 4 data @ take (4 * (2 * n)) (drop 4 data)"
      unfolding buf_def m cc by (rule refl)
    also have "take (4 * (2 * n)) (drop 4 data) = drop 4 data"
      using ld by (intro take_all) simp
    finally have "buf = data" by simp
    then show ?thesis using enc by simp
  qed
  have b: "build_from_bytes buf = Inr pts"
  proof -
    have lb: "length buf = 4 + 8 * n"
      using len by (simp add: buf_def h_def length_concat_words)
    have pc: "point_count buf = point_count data"
      using len by (simp add: buf_def point_count_def)
    have cw: "coord_word buf j = quiet32 (coord_word data j)" if "j < 2 * n" for j
    proof -
      have "take 4 (drop (4 + 4 * j) buf) = take 4 (drop (4 * j) (concat (map h [0..<2 * n])))"
        using len by (simp add: buf_def)
      also have "\<dots> = h j"
        using that by (intro chunk_of_concat) (simp_all add: h_def)
      finally have "coord_word buf j = le_decode (le_encode 4 (quiet32 (coord_word data j)))"
        by (simp add: coord_word_def h_def)
      also have "\<dots> = quiet32 (coord_word data j)"
        using quiet32_range[OF coord_word_range] by (intro le_decode_encode) simp_all
      finally show ?thesis .
    qed
    have "decoded_point buf i = decoded_point data i" if "i < n" for i
      using that by (simp add: decoded_point_def cw float_of_quiet32[OF coord_word_range])
    then have "map (decoded_point buf) [0..<n] = map (decoded_point data) [0..<n]" by simp
    then show ?thesis
      unfolding build_from_bytes_eq pc using lb n by (simp add: pts n_def)
  qed
  from a b enc show ?thesis by blast
qed

lemma read_points_numeral:
  "read_points data offset (numeral k) =
     (case unpack_ff data offset of
        Inl e \<Rightarrow> Inl e
      | Inr pt \<Rightarrow>
          (case read_points data (offset + 8) (pred_numeral k) of
             Inl e \<Rightarrow> Inl e
           | Inr pts \<Rightarrow> Inr (pt # pts)))"
  by (simp add: numeral_eq_Suc)

lemma le_encode_numeral:
  "le_encode (numeral k) v = word_of_int (v mod 256) # le_encode (pred_numeral k) (v div 256)"
  by (simp add: numeral_eq_Suc)

lemmas codec_eval = build_from_bytes_def unpack_I_def read_bytes_def unpack_ff_def
  float_of_bits32_def point_count_def PointSet_to_bytes_def pack_I_def pack_ff_def pack_f_def
  bits32_def round32_def round_fmt_def read_points_numeral le_encode_numeral

theorem C6_counterexample:
  "build_from_bytes snan_buffer = Inr [(NaN False (2 ^ 51 + 2 ^ 29), Finite False 0 (- 1074))]
   \<and> int (length snan_buffer) = 4 + point_count snan_buffer * 8
   \<and> PointSet_to_bytes \<lparr>points = [(NaN False (2 ^ 51 + 2 ^ 29), Finite False 0 (- 1074))]\<rparr>
       = Inr [1, 0, 0, 0, 1, 0, 0xC0, 0x7F, 0, 0, 0, 0]
   \<and> [1, 0, 0, 0, 1, 0, 0xC0, 0x7F, 0, 0, 0, 0] \<noteq> snan_buffer"
  by (simp add: snan_buffer_def codec_eval)

theorem C6_witness:
  "build_from_bytes one_point_buffer = Inr [(one_f, zero_f)]
   \<and> PointSet_to_bytes \<lparr>points = [(one_f, zero_f)]\<rparr> = Inr one_point_buffer"
proof -
  have d: "build_from_bytes one_point_buffer = Inr [(one_f, zero_f)]"
    by (simp add: one_point_buffer_def codec_eval one_f_def zero_f_def)
  have "int (length one_point_buffer) = 4 + point_count one_point_buffer * 8"
    by (simp add: one_point_buffer_def point_count_def)
  moreover have "no_signalling one_point_buffer"
    by (simp add: no_signalling_def one_point_buffer_def point_count_def coord_word_def
        signalling32_def less_2_cases_iff)
  ultimately show ?thesis
    using C6_roundtrip[OF d] d by simp
qed

lemma float_of_bits32_passes:
  assumes w: "0 \<le> w" "w < 2 ^ 32"
  shows "passes_through w (float_of_bits32 w)"
proof -
  have r: "bits32_of_float (float_of_bits32 w) = Inr (quiet32 w)"
    by (rule float_bits_roundtrip[OF w])
  show ?thesis
    unfolding passes_through_def sign32_def exponent32_def fraction32_def
    using r by (simp add: float_of_bits32_unfold)
qed

text \<open>
  Claim C5, amended. Decoding fails exactly when the buffer is shorter than 4 bytes
  or shorter than \<open>4 + count * 8\<close> bytes, \<open>count\<close> being the little-endian unsigned
  integer in its first 4 bytes, and every failure is a MalformedBuffer error. When
  it succeeds it returns exactly \<open>count\<close> points and validates no coordinate: every
  infinity word comes out as that infinity, every NaN word as the NaN with its sign
  and payload, every other word as a finite float, and each coordinate packs back
  to its word. The one change decoding makes is to a signalling NaN, which comes
  out quiet.
\<close>

theorem C5_decode_failure_and_passthrough:
  "((\<exists>e. build_from_bytes data = Inl e) \<longleftrightarrow>
      (length data < 4 \<or> int (length data) < 4 + point_count data * 8))
   \<and> (\<forall>e. build_from_bytes data = Inl e \<longrightarrow> MalformedBuffer e)
   \<and> (\<forall>pts. build_from_bytes data = Inr pts \<longrightarrow>
         int (length pts) = point_count data \<and>
         (\<forall>i < length pts.
            passes_through (coord_word data (2 * i)) (fst (pts ! i)) \<and>
            passes_through (coord_word data (2 * i + 1)) (snd (pts ! i))))"
proof -
  have nn: "0 \<le> point_count data" unfolding point_count_def by (rule word4_range) simp
  have 1: "(\<exists>e. build_from_bytes data = Inl e) \<longleftrightarrow>
      (length data < 4 \<or> int (length data) < 4 + point_count data * 8)"
    unfolding build_from_bytes_eq by auto
  have 2: "\<forall>e. build_from_bytes data = Inl e \<longrightarrow> MalformedBuffer e"
    unfolding build_from_bytes_eq MalformedBuffer_def by auto
  have 3: "int (length pts) = point_count data \<and>
         (\<forall>i < length pts.
            passes_through (coord_word data (2 * i)) (fst (pts ! i)) \<and>
            passes_through (coord_word data (2 * i + 1)) (snd (pts ! i)))"
    if ok: "build_from_bytes data = Inr pts" for pts
  proof -
    have pts: "pts = map (decoded_point data) [0..<nat (point_count data)]"
      using ok unfolding build_from_bytes_eq by (auto split: if_splits)
    have len: "int (length pts) = point_count data" using nn by (simp add: pts)
    have "passes_through (coord_word data (2 * i)) (fst (pts ! i)) \<and>
          passes_through (coord_word data (2 * i + 1)) (snd (pts ! i))"
      if "i < length pts" for i
    proof -
      have "pts ! i = decoded_point data i" using that by (simp add: pts)
      then have "fst (pts ! i) = float_of_bits32 (coord_word data (2 * i))"
        "snd (pts ! i) = float_of_bits32 (coord_word data (2 * i + 1))"
        by (simp_all add: decoded_point_def)
      then show ?thesis
        using float_of_bits32_passes[OF coord_word_range] by simp
    qed
    with len show ?thesis by blast
  qed
  from 1 2 3 show ?thesis by blast
qed

theorem C5_counterexample:
  "build_from_bytes snan_buffer = Inr [(NaN False (2 ^ 51 + 2 ^ 29), Finite False 0 (- 1074))]
   \<and> build_from_bytes qnan_buffer = Inr [(NaN False (2 ^ 51 + 2 ^ 29), Finite False 0 (- 1074))]
   \<and> coord_word snan_buffer 0 = 0x7F800001
   \<and> coord_word qnan_buffer 0 = 0x7FC00001
   \<and> bits32_of_float (NaN False (2 ^ 51 + 2 ^ 29)) = Inr 0x7FC00001"
  by (simp add: snan_buffer_def qnan_buffer_def codec_eval coord_word_def)

theorem C5_witness:
  "build_from_bytes inf_nan_buffer
     = Inr [(Infinity False, NaN False (2 ^ 51)), (one_f, zero_f)]
   \<and> passes_through 0x7F800000 (Infinity False)
   \<and> passes_through 0x7FC00000 (NaN False (2 ^ 51))
   \<and> passes_through 0x3F800000 one_f
   \<and> passes_through 0 zero_f
   \<and> build_from_bytes short_buffer = Inl (ValueError ''buffer too short'')
   \<and> MalformedBuffer (ValueError ''buffer too short'')"
proof -
  have a: "build_from_bytes inf_nan_buffer
     = Inr [(Infinity False, NaN False (2 ^ 51)), (one_f, zero_f)]"
    by (simp add: inf_nan_buffer_def codec_eval one_f_def zero_f_def)
  have b: "build_from_bytes short_buffer = Inl (ValueError ''buffer too short'')"
    by (simp add: short_buffer_def codec_eval)
  have w: "coord_word inf_nan_buffer 0 = 0x7F800000" "coord_word inf_nan_buffer 1 = 0x7FC00000"
    "coord_word inf_nan_buffer 2 = 0x3F800000" "coord_word inf_nan_buffer 3 = 0"
    by (simp_all add: inf_nan_buffer_def coord_word_def)
  have p: "\<forall>i < 2. passes_through (coord_word inf_nan_buffer (2 * i))
              (fst ([(Infinity False, NaN False (2 ^ 51)), (one_f, zero_f)] ! i)) \<and>
            passes_through (coord_word inf_nan_buffer (2 * i + 1))
              (snd ([(Infinity False, NaN False (2 ^ 51)), (one_f, zero_f)] ! i))"
    using C5_decode_failure_and_passthrough[of inf_nan_buffer] a by simp
  have p0: "passes_through 0x7F800000 (Infinity False) \<and> passes_through 0x7FC00000 (NaN False (2 ^ 51))"
    using p[rule_format, of 0] w by simp
  have p1: "passes_through 0x3F800000 one_f \<and> passes_through 0 zero_f"
    using p[rule_format, of 1] w by simp
  have m: "MalformedBuffer (ValueError ''buffer too short'')"
    using C5_decode_failure_and_passthrough[of short_buffer] b by simp
  from a b p0 p1 m show ?thesis by blast
qed

section \<open>The insertion loop\<close>

lemma find_bad_subset:
  "find_bad_triangles p ts ap = Inr bad \<Longrightarrow> set bad \<subseteq> set ts \<and> (distinct ts \<longrightarrow> distinct bad)"
proof (induction ts arbitrary: bad)
  case Nil
  then show ?case by simp
next
  case (Cons t ts)
  from Cons.prems obtain b bad' where b: "is_point_in_circumcircle p t ap = Inr b"
    "find_bad_triangles p ts ap = Inr bad'" "bad = (if b then t # bad' else bad')"
    by (auto split: sum.splits)
  from Cons.IH[OF b(2)] have "set bad' \<subseteq> set ts" "distinct ts \<longrightarrow> distinct bad'" by simp_all
  then show ?case using b(3) by auto
qed

lemma find_bad_total:
  "(\<forall>t \<in> set ts. \<exists>b. is_point_in_circumcircle p t ap = Inr b) \<Longrightarrow>
   \<exists>bad. find_bad_triangles p ts ap = Inr bad"
proof (induction ts)
  case Nil
  then show ?case by simp
next
  case (Cons t ts)
  then obtain b bad where "is_point_in_circumcircle p t ap = Inr b"
    "find_bad_triangles p ts ap = Inr bad" by auto
  then show ?case by simp
qed

lemma remove_all_distinct:
  "distinct xs \<Longrightarrow> set bad \<subseteq> set xs \<Longrightarrow> distinct bad \<Longrightarrow>
   remove_all bad xs = Inr (filter (\<lambda>x. x \<notin> set bad) xs)"
proof (induction bad arbitrary: xs)
  case Nil
  then show ?case by simp
next
  case (Cons t bad)
  have r: "remove1 t xs = filter (\<lambda>x. x \<noteq> t) xs"
    using Cons.prems(1) by (simp add: distinct_remove1_removeAll removeAll_filter_not_eq eq_commute)
  have d: "distinct (remove1 t xs)" using Cons.prems(1) by simp
  have s: "set bad \<subseteq> set (remove1 t xs)" using Cons.prems by auto
  have "remove_all bad (remove1 t xs) = Inr (filter (\<lambda>x. x \<notin> set bad) (remove1 t xs))"
    using Cons.IH[OF d s] Cons.prems(3) by simp
  moreover have "filter (\<lambda>x. x \<notin> set bad) (remove1 t xs) = filter (\<lambda>x. x \<notin> set (t # bad)) xs"
    unfolding r by (simp add: conj_commute)
  moreover have "t \<in> set xs" using Cons.prems(2) by simp
  ultimately show ?case by (simp add: py_remove_def)
qed

lemma sorted_edge_set: "sorted_edge e = sorted_edge e' \<longleftrightarrow> {fst e, snd e} = {fst e', snd e'}"
  by (cases e; cases e') (auto simp: sorted_edge_def doubleton_eq_iff)

lemma tri_edges_distinct:
  "tri_ok t \<Longrightarrow> distinct (map sorted_edge (tri_edges t))"
  by (cases t) (auto simp: tri_ok_def tri_edges_def sorted_edge_def)

lemma polygon_part_distinct:
  assumes "set L \<subseteq> set bad" "distinct L" "\<forall>t \<in> set bad. tri_ok t"
  shows "distinct (map sorted_edge
           (concat (map (\<lambda>tri. filter (\<lambda>edge. \<not> edge_shared bad tri edge) (tri_edges tri)) L)))"
proof -
  define g where "g = (\<lambda>tri. filter (\<lambda>edge. \<not> edge_shared bad tri edge) (tri_edges tri))"
  have g_in: "e \<in> set (tri_edges t) \<and> \<not> edge_shared bad t e" if "e \<in> set (g t)" for e t
    using that by (simp add: g_def)
  have "distinct (map sorted_edge (concat (map g L)))"
    using assms(1,2)
  proof (induction L)
    case Nil
    then show ?case by simp
  next
    case (Cons t L)
    have t: "t \<in> set bad" "t \<notin> set L" using Cons.prems by simp_all
    have "tri_ok t" using assms(3) t(1) by blast
    then have "distinct (map sorted_edge (tri_edges t))" by (rule tri_edges_distinct)
    then have 1: "distinct (map sorted_edge (g t))"
      unfolding g_def by (rule distinct_map_filter)
    have 2: "distinct (map sorted_edge (concat (map g L)))"
      using Cons by simp
    have 3: "sorted_edge e \<noteq> sorted_edge e'"
      if e: "e \<in> set (g t)" and e': "e' \<in> set (concat (map g L))" for e e'
    proof
      assume eq: "sorted_edge e = sorted_edge e'"
      from e' obtain t' where t': "t' \<in> set L" "e' \<in> set (g t')" by auto
      have tb: "t' \<in> set bad" using t'(1) Cons.prems(1) by auto
      have ne: "t \<noteq> t'" using t'(1) t(2) by auto
      have "e' \<in> set (tri_edges t')" using g_in[OF t'(2)] by simp
      then have "sorted_edge e' \<in> set (other_edges t')"
        unfolding other_edges_def by simp
      then have "sorted_edge e \<in> set (other_edges t')" using eq by simp
      with tb ne have "\<exists>u \<in> set bad. t \<noteq> u \<and> sorted_edge e \<in> set (other_edges u)" by blast
      then have "edge_shared bad t e"
        unfolding edge_shared_def list_ex_iff .
      with g_in[OF e] show False by simp
    qed
    have 4: "set (map sorted_edge (g t)) \<inter> set (map sorted_edge (concat (map g L))) = {}"
    proof (rule ccontr)
      assume "set (map sorted_edge (g t)) \<inter> set (map sorted_edge (concat (map g L))) \<noteq> {}"
      then obtain x where x: "x \<in> set (map sorted_edge (g t))"
        "x \<in> set (map sorted_edge (concat (map g L)))" by blast
      from x(1) have "x \<in> sorted_edge ` set (g t)" by (simp only: set_map)
      then obtain e where e: "e \<in> set (g t)" "x = sorted_edge e" by (elim imageE)
      from x(2) have "x \<in> sorted_edge ` set (concat (map g L))" by (simp only: set_map)
      then obtain e' where e': "e' \<in> set (concat (map g L))" "x = sorted_edge e'" by (elim imageE)
      from 3[OF e(1) e'(1)] e(2) e'(2) show False by simp
    qed
    have "map sorted_edge (concat (map g (t # L)))
        = map sorted_edge (g t) @ map sorted_edge (concat (map g L))" by simp
    then show ?case using 1 2 4 by (simp only: distinct_append)
  qed
  then show ?thesis unfolding g_def .
qed

lemma polygon_distinct:
  "distinct bad \<Longrightarrow> \<forall>t \<in> set bad. tri_ok t \<Longrightarrow> distinct (map sorted_edge (polygon_of bad))"
  unfolding polygon_of_def by (rule polygon_part_distinct) simp_all

lemma polygon_edges:
  "e \<in> set (polygon_of bad) \<Longrightarrow> \<exists>t \<in> set bad. e \<in> set (tri_edges t)"
  by (auto simp: polygon_of_def)

lemma edge_of_tri:
  "e \<in> set (tri_edges t) \<Longrightarrow> tri_ok t \<Longrightarrow> fst e \<in> vset t \<and> snd e \<in> vset t \<and> fst e \<noteq> snd e"
  by (cases t) (auto simp: tri_edges_def vset_def tri_ok_def)

lemma distinct_map_coarser:
  assumes d: "distinct (map f xs)"
    and c: "\<forall>x \<in> set xs. \<forall>y \<in> set xs. g x = g y \<longrightarrow> f x = f y"
  shows "distinct (map g xs)"
proof -
  from d have dx: "distinct xs" and inj: "inj_on f (set xs)" by (simp_all add: distinct_map)
  have "inj_on g (set xs)"
  proof (rule inj_onI)
    fix x y assume x: "x \<in> set xs" and y: "y \<in> set xs" and "g x = g y"
    with c have "f x = f y" by blast
    with inj x y show "x = y" by (simp add: inj_on_def)
  qed
  with dx show ?thesis by (simp add: distinct_map)
qed

lemma drop_common:
  assumes "a \<noteq> i" "b \<noteq> i" "c \<noteq> i" "d \<noteq> i" "{a, b, i} = {c, d, i}"
  shows "{a, b} = {c, d}"
proof -
  have "{a, b, i} - {i} = {c, d, i} - {i}" using assms(5) by simp
  moreover have "{a, b, i} - {i} = {a, b}" using assms(1,2) by auto
  moreover have "{c, d, i} - {i} = {c, d}" using assms(3,4) by auto
  ultimately show ?thesis by simp
qed

lemma insert_point_unfold:
  assumes "insert_point i p st = Inr st'"
  obtains bad kept where "find_bad_triangles p (triangulation st) (all_points st) = Inr bad"
    and "remove_all bad (triangulation st) = Inr kept"
    and "st' = st\<lparr>triangulation := kept @ map (\<lambda>edge. (fst edge, snd edge, i)) (polygon_of bad)\<rparr>"
proof (cases "find_bad_triangles p (triangulation st) (all_points st)")
  case (Inl e)
  then show ?thesis using assms by (simp add: insert_point_def)
next
  case (Inr bad)
  show ?thesis
  proof (cases "remove_all bad (triangulation st)")
    case (Inl e)
    then show ?thesis using assms Inr by (simp add: insert_point_def Let_def)
  next
    case (Inr kept)
    then have "st' = st\<lparr>triangulation := kept @ map (\<lambda>edge. (fst edge, snd edge, i)) (polygon_of bad)\<rparr>"
      using assms \<open>find_bad_triangles p (triangulation st) (all_points st) = Inr bad\<close>
      by (simp add: insert_point_def Let_def)
    then show ?thesis using that Inr \<open>find_bad_triangles p (triangulation st) (all_points st) = Inr bad\<close>
      by blast
  qed
qed

lemma live_facts:
  assumes "0 \<le> i" "i < n"
  shows "i \<notin> live n i" "live n i \<subseteq> live n (i + 1)" "i \<in> live n (i + 1)"
  using assms by (auto simp: live_def)

lemma new_tri_ok:
  assumes "a \<in> live n i" "b \<in> live n i" "a \<noteq> b" "0 \<le> i" "i < n"
  shows "vset (a, b, i) \<subseteq> live n (i + 1)" "tri_ok (a, b, i)" "i \<in> vset (a, b, i)"
proof -
  have ne: "a \<noteq> i" "b \<noteq> i" using assms live_facts(1)[of i n] by auto
  show "vset (a, b, i) \<subseteq> live n (i + 1)"
    using assms(1,2) live_facts(2,3)[OF assms(4,5)] by (auto simp: vset_def)
  show "tri_ok (a, b, i)" using ne assms(3) by (simp add: tri_ok_def)
  show "i \<in> vset (a, b, i)" by (simp add: vset_def)
qed

lemma new_tris_distinct:
  assumes d: "distinct (map sorted_edge es)"
    and e: "\<forall>e \<in> set es. fst e \<noteq> i \<and> snd e \<noteq> i"
  shows "distinct (map vset (map (\<lambda>edge. (fst edge, snd edge, i)) es))"
proof -
  have "distinct (map (\<lambda>e. vset (fst e, snd e, i)) es)"
  proof (rule distinct_map_coarser[OF d], intro ballI impI)
    fix x y assume x: "x \<in> set es" and y: "y \<in> set es"
      and eq: "vset (fst x, snd x, i) = vset (fst y, snd y, i)"
    from e x y have ne: "fst x \<noteq> i" "snd x \<noteq> i" "fst y \<noteq> i" "snd y \<noteq> i" by blast+
    from eq have "{fst x, snd x, i} = {fst y, snd y, i}" by (simp add: vset_def)
    with ne have "{fst x, snd x} = {fst y, snd y}" by (rule drop_common)
    then show "sorted_edge x = sorted_edge y" by (simp add: sorted_edge_set)
  qed
  then show ?thesis by (simp add: comp_def)
qed

lemma tri_inv_append:
  assumes kept: "\<forall>t \<in> set kept. vset t \<subseteq> live n i \<and> tri_ok t" "distinct (map vset kept)"
    and new: "\<forall>t \<in> set new. vset t \<subseteq> live n (i + 1) \<and> tri_ok t \<and> i \<in> vset t"
      "distinct (map vset new)"
    and i: "0 \<le> i" "i < n"
  shows "tri_inv n (i + 1) (kept @ new)"
proof -
  have disj: "vset a \<noteq> vset b" if "a \<in> set kept" "b \<in> set new" for a b
  proof
    assume "vset a = vset b"
    moreover have "i \<in> vset b" using new(1) that(2) by blast
    moreover have "vset a \<subseteq> live n i" using kept(1) that(1) by blast
    ultimately have "i \<in> live n i" by blast
    then show False using live_facts(1)[OF i] by simp
  qed
  have "set (map vset kept) \<inter> set (map vset new) = {}"
  proof (rule ccontr)
    assume "set (map vset kept) \<inter> set (map vset new) \<noteq> {}"
    then obtain x where x: "x \<in> set (map vset kept)" "x \<in> set (map vset new)" by blast
    from x(1) have "x \<in> vset ` set kept" by (simp only: set_map)
    then obtain a where a: "a \<in> set kept" "x = vset a" by (elim imageE)
    from x(2) have "x \<in> vset ` set new" by (simp only: set_map)
    then obtain b where b: "b \<in> set new" "x = vset b" by (elim imageE)
    from disj[OF a(1) b(1)] a(2) b(2) show False by simp
  qed
  then have d: "distinct (map vset (kept @ new))"
    using kept(2) new(2) by (simp only: map_append distinct_append)
  have "vset t \<subseteq> live n (i + 1) \<and> tri_ok t" if "t \<in> set (kept @ new)" for t
  proof -
    from that consider "t \<in> set kept" | "t \<in> set new" by auto
    then show ?thesis
    proof cases
      case 1
      then have "vset t \<subseteq> live n i" "tri_ok t" using kept(1) by blast+
      then show ?thesis using live_facts(2)[OF i] by blast
    next
      case 2 then show ?thesis using new(1) by blast
    qed
  qed
  then show ?thesis unfolding tri_inv_def using d by blast
qed

lemma insert_point_inv:
  assumes inv: "tri_inv n i (triangulation st)" and i: "0 \<le> i" "i < n"
    and step: "insert_point i p st = Inr st'"
  shows "tri_inv n (i + 1) (triangulation st')"
    and "ps_points st' = ps_points st" and "all_points st' = all_points st"
proof -
  let ?T = "triangulation st"
  from step obtain bad kept where bad: "find_bad_triangles p ?T (all_points st) = Inr bad"
    and kept: "remove_all bad ?T = Inr kept"
    and st': "st' = st\<lparr>triangulation := kept @ map (\<lambda>edge. (fst edge, snd edge, i)) (polygon_of bad)\<rparr>"
    by (rule insert_point_unfold)
  show "ps_points st' = ps_points st" "all_points st' = all_points st" using st' by simp_all
  have invT: "\<forall>t \<in> set ?T. vset t \<subseteq> live n i \<and> tri_ok t" "distinct (map vset ?T)"
    using inv unfolding tri_inv_def by blast+
  have dT: "distinct ?T" using invT(2) by (simp add: distinct_map)
  have sb: "set bad \<subseteq> set ?T" "distinct bad" using find_bad_subset[OF bad] dT by simp_all
  have kept_eq: "kept = filter (\<lambda>x. x \<notin> set bad) ?T"
    using remove_all_distinct[OF dT sb] kept by simp
  have okb: "\<forall>t \<in> set bad. tri_ok t" using invT(1) sb(1) by blast
  define new where "new = map (\<lambda>edge. (fst edge, snd edge, i)) (polygon_of bad)"
  have edge: "fst e \<in> live n i \<and> snd e \<in> live n i \<and> fst e \<noteq> snd e"
    if "e \<in> set (polygon_of bad)" for e
  proof -
    from polygon_edges[OF that] obtain t where t: "t \<in> set bad" "e \<in> set (tri_edges t)" by blast
    have "tri_ok t" "vset t \<subseteq> live n i" using t(1) sb(1) invT(1) by blast+
    with edge_of_tri[OF t(2)] show ?thesis by blast
  qed
  have new_ok: "\<forall>t \<in> set new. vset t \<subseteq> live n (i + 1) \<and> tri_ok t \<and> i \<in> vset t"
  proof
    fix t assume "t \<in> set new"
    then obtain e where e: "e \<in> set (polygon_of bad)" "t = (fst e, snd e, i)"
      unfolding new_def set_map by (elim imageE)
    from edge[OF e(1)] have "fst e \<in> live n i" "snd e \<in> live n i" "fst e \<noteq> snd e" by simp_all
    from new_tri_ok[OF this i] show "vset t \<subseteq> live n (i + 1) \<and> tri_ok t \<and> i \<in> vset t"
      unfolding e(2) by simp
  qed
  have kept_ok: "\<forall>t \<in> set kept. vset t \<subseteq> live n i \<and> tri_ok t"
    using invT(1) unfolding kept_eq by simp
  have d_kept: "distinct (map vset kept)"
    using invT(2) unfolding kept_eq by (rule distinct_map_filter)
  have "\<forall>e \<in> set (polygon_of bad). fst e \<noteq> i \<and> snd e \<noteq> i"
    using edge live_facts(1)[OF i] by metis
  then have d_new: "distinct (map vset new)"
    unfolding new_def by (rule new_tris_distinct[OF polygon_distinct[OF sb(2) okb]])
  have "tri_inv n (i + 1) (kept @ new)"
    using kept_ok d_kept new_ok d_new i by (rule tri_inv_append)
  then show "tri_inv n (i + 1) (triangulation st')" using st' by (simp add: new_def)
qed

lemma py_index_live:
  assumes "k \<in> live n i" "i \<le> n" "int (length ap) = n + 3" "0 \<le> n"
  shows "\<exists>q \<in> set ap. py_index ap k = Inr q"
proof -
  have k: "0 \<le> k" "k < int (length ap)" using assms by (auto simp: live_def)
  then have "nat k < length ap" by simp
  then have "ap ! nat k \<in> set ap" by (rule nth_mem)
  moreover have "py_index ap k = Inr (ap ! nat k)" using k by (simp add: py_index_def)
  ultimately show ?thesis by blast
qed

lemma predicate_total:
  assumes t: "vset t \<subseteq> live n i" and i: "i \<le> n" and len: "int (length ap) = n + 3"
    and n: "0 \<le> n" and safe: "circ_safe ap pts" and p: "p \<in> set pts"
  shows "\<exists>b. is_point_in_circumcircle p t ap = Inr b"
proof -
  have "fst t \<in> live n i" "fst (snd t) \<in> live n i" "snd (snd t) \<in> live n i"
    using t by (simp_all add: vset_def)
  then obtain p1 p2 p3 where q: "p1 \<in> set ap" "py_index ap (fst t) = Inr p1"
    "p2 \<in> set ap" "py_index ap (fst (snd t)) = Inr p2"
    "p3 \<in> set ap" "py_index ap (snd (snd t)) = Inr p3"
    using py_index_live[OF _ i len n] by metis
  from safe p q(1,3,5) obtain b where "in_circumcircle p p1 p2 p3 = Inr b"
    unfolding circ_safe_def by blast
  then show ?thesis using q by (simp add: is_point_in_circumcircle_def)
qed

lemma insert_point_total:
  assumes inv: "tri_inv n i (triangulation st)" and i: "0 \<le> i" "i < n"
    and len: "int (length (all_points st)) = n + 3"
    and safe: "circ_safe (all_points st) pts" and p: "p \<in> set pts"
  shows "\<exists>st'. insert_point i p st = Inr st'"
proof -
  let ?T = "triangulation st"
  have invT: "\<forall>t \<in> set ?T. vset t \<subseteq> live n i \<and> tri_ok t" "distinct (map vset ?T)"
    using inv unfolding tri_inv_def by blast+
  have "\<forall>t \<in> set ?T. \<exists>b. is_point_in_circumcircle p t (all_points st) = Inr b"
    using invT(1) predicate_total[OF _ _ len _ safe p, of _ i] i by simp
  then obtain bad where bad: "find_bad_triangles p ?T (all_points st) = Inr bad"
    using find_bad_total by blast
  have dT: "distinct ?T" using invT(2) by (simp add: distinct_map)
  have sb: "set bad \<subseteq> set ?T" "distinct bad" using find_bad_subset[OF bad] dT by simp_all
  have "remove_all bad ?T = Inr (filter (\<lambda>x. x \<notin> set bad) ?T)"
    by (rule remove_all_distinct[OF dT sb])
  then show ?thesis using bad by (simp add: insert_point_def Let_def)
qed

lemma insert_loop_inv:
  assumes "tri_inv n i (triangulation st)" "0 \<le> i" "i + int (length rest) \<le> n"
    and "int (length (all_points st)) = n + 3"
    and "circ_safe (all_points st) pts" "set rest \<subseteq> set pts"
  shows "\<exists>st'. insert_loop i rest st = Inr st' \<and> tri_inv n (i + int (length rest)) (triangulation st')
           \<and> ps_points st' = ps_points st \<and> all_points st' = all_points st"
  using assms
proof (induction rest arbitrary: i st)
  case Nil
  then show ?case by simp
next
  case (Cons p rest)
  have i: "0 \<le> i" "i < n" using Cons.prems(2,3) by simp_all
  have p: "p \<in> set pts" using Cons.prems(6) by simp
  obtain st1 where st1: "insert_point i p st = Inr st1"
    using insert_point_total[OF Cons.prems(1) i Cons.prems(4,5) p] by blast
  note s = insert_point_inv[OF Cons.prems(1) i st1]
  have "\<exists>st'. insert_loop (i + 1) rest st1 = Inr st' \<and>
       tri_inv n (i + 1 + int (length rest)) (triangulation st') \<and>
       ps_points st' = ps_points st1 \<and> all_points st' = all_points st1"
  proof (rule Cons.IH)
    show "tri_inv n (i + 1) (triangulation st1)" by (rule s(1))
    show "0 \<le> i + 1" using i by simp
    show "i + 1 + int (length rest) \<le> n" using Cons.prems(3) by simp
    show "int (length (all_points st1)) = n + 3" using Cons.prems(4) s(3) by simp
    show "circ_safe (all_points st1) pts" using Cons.prems(5) s(3) by simp
    show "set rest \<subseteq> set pts" using Cons.prems(6) by simp
  qed
  then obtain st' where st': "insert_loop (i + 1) rest st1 = Inr st'"
    "tri_inv n (i + 1 + int (length rest)) (triangulation st')"
    "ps_points st' = ps_points st1" "all_points st' = all_points st1" by blast
  have e: "i + 1 + int (length rest) = i + int (length (p # rest))" by simp
  have "insert_loop i (p # rest) st = Inr st'" using st1 st'(1) by simp
  moreover have "tri_inv n (i + int (length (p # rest))) (triangulation st')"
    using st'(2) unfolding e .
  moreover have "ps_points st' = ps_points st" "all_points st' = all_points st"
    using st'(3,4) s(2,3) by simp_all
  ultimately show ?case by blast
qed

lemma tri_inv_init: "tri_inv n 0 [(n, n + 1, n + 2)]"
  by (simp add: tri_inv_def vset_def live_def tri_ok_def)

lemma final_triangles_valid:
  assumes inv: "tri_inv n n ts"
  defines "fin \<equiv> map tuple_list (final_triangles n ts)"
  shows "\<forall>i < length fin. violation_of n (take i fin) (fin ! i) = None"
proof (intro allI impI)
  fix i assume i: "i < length fin"
  define F where "F = final_triangles n ts"
  have fin: "fin = map tuple_list F" by (simp add: fin_def F_def)
  have iF: "i < length F" using i fin by simp
  have invT: "\<forall>t \<in> set ts. vset t \<subseteq> live n n \<and> tri_ok t" "distinct (map vset ts)"
    using inv unfolding tri_inv_def by blast+
  have dF: "distinct (map vset F)"
    unfolding F_def final_triangles_def using invT(2) by (rule distinct_map_filter)
  have memF: "t \<in> set ts \<and> fst t < n \<and> fst (snd t) < n \<and> snd (snd t) < n" if "t \<in> set F" for t
    using that unfolding F_def final_triangles_def by auto
  define t where "t = F ! i"
  have tF: "t \<in> set F" unfolding t_def using iF by (rule nth_mem)
  have tt: "fin ! i = tuple_list t" using iF by (simp add: fin t_def)
  have ok: "tri_ok t" "vset t \<subseteq> live n n" using memF[OF tF] invT(1) by blast+
  have lt: "fst t < n" "fst (snd t) < n" "snd (snd t) < n" using memF[OF tF] by simp_all
  have set_t: "set (tuple_list t) = vset t" by (simp add: tuple_list_def vset_def)
  have rng: "\<forall>x \<in> set (tuple_list t). 0 \<le> x \<and> x < n"
  proof
    fix x assume "x \<in> set (tuple_list t)"
    then have x: "x \<in> vset t" using set_t by simp
    then have "x < n" using lt by (auto simp: vset_def)
    moreover have "x \<in> live n n" using x ok(2) by blast
    ultimately show "0 \<le> x \<and> x < n" by (auto simp: live_def)
  qed
  have c1: "length (tuple_list t) = 3" by (simp add: tuple_list_def)
  have c2: "\<not> (\<exists>x \<in> set (tuple_list t). x < 0 \<or> n \<le> x)" using rng by auto
  have c3: "distinct (tuple_list t)" using ok(1) by (auto simp: tuple_list_def tri_ok_def)
  have c4: "sort (tuple_list t) \<notin> sort ` set (take i fin)"
  proof
    assume "sort (tuple_list t) \<in> sort ` set (take i fin)"
    then obtain u where u: "u \<in> set (take i fin)" "sort (tuple_list t) = sort u" by (elim imageE)
    from u(1) obtain j where j: "j < i" "u = fin ! j"
      using i by (auto simp: in_set_conv_nth)
    have jF: "j < length F" using j(1) iF by simp
    have "u = tuple_list (F ! j)" using j(2) jF by (simp add: fin)
    then have "set u = vset (F ! j)" by (simp add: tuple_list_def vset_def)
    moreover have "set (sort (tuple_list t)) = set (sort u)" using u(2) by simp
    ultimately have "vset (F ! i) = vset (F ! j)" using set_t by (simp add: t_def)
    then have "map vset F ! i = map vset F ! j" using iF jF by simp
    moreover have "i < length (map vset F)" "j < length (map vset F)" using iF jF by simp_all
    ultimately have "i = j" using dF nth_eq_iff_index_eq[of "map vset F" i j] by blast
    with j(1) show False by simp
  qed
  show "violation_of n (take i fin) (fin ! i) = None"
    unfolding tt violation_of_def using c1 c2 c3 c4 by simp
qed

section \<open>Evaluation of concrete runs\<close>

lemma bitlen_numeral_simps:
  "bitlen 1 = 1"
  "bitlen (numeral Num.One) = 1"
  "bitlen (numeral (Num.Bit0 n)) = bitlen (numeral n) + 1"
  "bitlen (numeral (Num.Bit1 n)) = bitlen (numeral n) + 1"
proof -
  show "bitlen 1 = 1" by (subst compute_bitlen) simp
  then show "bitlen (numeral Num.One) = 1" by simp
  show "bitlen (numeral (Num.Bit0 n)) = bitlen (numeral n) + 1"
    by (subst compute_bitlen) simp
  show "bitlen (numeral (Num.Bit1 n)) = bitlen (numeral n) + 1"
    by (subst compute_bitlen) simp
qed

lemmas fl_eval = round64_def round_fmt_def rne_def sgn_int_def Let_def bitlen_numeral_simps
  fsub_def float_of_int_def eps_def fgt_def py_max2_def

lemmas fl_cong = let_weak_cong sum.case_cong_weak pyfloat.case_cong_weak list.case_cong_weak

lemmas run_eval = insert_point_def is_point_in_circumcircle_def py_index_def polygon_of_def
  edge_shared_def tri_edges_def other_edges_def sorted_edge_def py_remove_def Let_def

lemma nodes_three:
  "super_triangle_nodes
     [(Finite False 0 (- 1074), Finite False 0 (- 1074)),
      (Finite False 4503599627370496 (- 52), Finite False 0 (- 1074)),
      (Finite False 0 (- 1074), Finite False 4503599627370496 (- 52))]
   = Inr [(Finite True 5488762045857792 (- 48), Finite True 4503599627370496 (- 53)),
      (Finite False 4503599627370496 (- 53), Finite False 5770237022568448 (- 48)),
      (Finite False 5770237022568448 (- 48), Finite True 4503599627370496 (- 53))]"
  by (simp add: super_triangle_nodes_def py_min_def py_max_def fl_eval cong: fl_cong)

lemma circ_0:
  "in_circumcircle
     (Finite False 0 (- 1074), Finite False 0 (- 1074))
     (Finite True 5488762045857792 (- 48), Finite True 4503599627370496 (- 53))
     (Finite False 4503599627370496 (- 53), Finite False 5770237022568448 (- 48))
     (Finite False 5770237022568448 (- 48), Finite True 4503599627370496 (- 53))
   = Inr True"
  by (simp add: in_circumcircle_def circum_d_def fl_eval cong: fl_cong)

lemma circ_1:
  "in_circumcircle
     (Finite False 4503599627370496 (- 52), Finite False 0 (- 1074))
     (Finite True 5488762045857792 (- 48), Finite True 4503599627370496 (- 53))
     (Finite False 4503599627370496 (- 53), Finite False 5770237022568448 (- 48))
     (Finite False 0 (- 1074), Finite False 0 (- 1074))
   = Inr False"
  by (simp add: in_circumcircle_def circum_d_def fl_eval cong: fl_cong)

lemma circ_2:
  "in_circumcircle
     (Finite False 4503599627370496 (- 52), Finite False 0 (- 1074))
     (Finite False 4503599627370496 (- 53), Finite False 5770237022568448 (- 48))
     (Finite False 5770237022568448 (- 48), Finite True 4503599627370496 (- 53))
     (Finite False 0 (- 1074), Finite False 0 (- 1074))
   = Inr True"
  by (simp add: in_circumcircle_def circum_d_def fl_eval cong: fl_cong)

lemma circ_3:
  "in_circumcircle
     (Finite False 4503599627370496 (- 52), Finite False 0 (- 1074))
     (Finite False 5770237022568448 (- 48), Finite True 4503599627370496 (- 53))
     (Finite True 5488762045857792 (- 48), Finite True 4503599627370496 (- 53))
     (Finite False 0 (- 1074), Finite False 0 (- 1074))
   = Inr False"
  by (simp add: in_circumcircle_def circum_d_def fl_eval cong: fl_cong)

lemma circ_4:
  "in_circumcircle
     (Finite False 0 (- 1074), Finite False 4503599627370496 (- 52))
     (Finite True 5488762045857792 (- 48), Finite True 4503599627370496 (- 53))
     (Finite False 4503599627370496 (- 53), Finite False 5770237022568448 (- 48))
     (Finite False 0 (- 1074), Finite False 0 (- 1074))
   = Inr True"
  by (simp add: in_circumcircle_def circum_d_def fl_eval cong: fl_cong)

lemma circ_5:
  "in_circumcircle
     (Finite False 0 (- 1074), Finite False 4503599627370496 (- 52))
     (Finite False 5770237022568448 (- 48), Finite True 4503599627370496 (- 53))
     (Finite True 5488762045857792 (- 48), Finite True 4503599627370496 (- 53))
     (Finite False 0 (- 1074), Finite False 0 (- 1074))
   = Inr False"
  by (simp add: in_circumcircle_def circum_d_def fl_eval cong: fl_cong)

lemma circ_6:
  "in_circumcircle
     (Finite False 0 (- 1074), Finite False 4503599627370496 (- 52))
     (Finite False 4503599627370496 (- 53), Finite False 5770237022568448 (- 48))
     (Finite False 5770237022568448 (- 48), Finite True 4503599627370496 (- 53))
     (Finite False 4503599627370496 (- 52), Finite False 0 (- 1074))
   = Inr False"
  by (simp add: in_circumcircle_def circum_d_def fl_eval cong: fl_cong)

lemma circ_7:
  "in_circumcircle
     (Finite False 0 (- 1074), Finite False 4503599627370496 (- 52))
     (Finite False 5770237022568448 (- 48), Finite True 4503599627370496 (- 53))
     (Finite False 0 (- 1074), Finite False 0 (- 1074))
     (Finite False 4503599627370496 (- 52), Finite False 0 (- 1074))
   = Inr False"
  by (simp add: in_circumcircle_def circum_d_def fl_eval cong: fl_cong)

lemma circ_8:
  "in_circumcircle
     (Finite False 0 (- 1074), Finite False 4503599627370496 (- 52))
     (Finite False 0 (- 1074), Finite False 0 (- 1074))
     (Finite False 4503599627370496 (- 53), Finite False 5770237022568448 (- 48))
     (Finite False 4503599627370496 (- 52), Finite False 0 (- 1074))
   = Inr True"
  by (simp add: in_circumcircle_def circum_d_def fl_eval cong: fl_cong)

lemma run_three:
  "run_triangulation
     [(Finite False 0 (- 1074), Finite False 0 (- 1074)),
      (Finite False 4503599627370496 (- 52), Finite False 0 (- 1074)),
      (Finite False 0 (- 1074), Finite False 4503599627370496 (- 52))]
   = Inr \<lparr>ps_points = [(Finite False 0 (- 1074), Finite False 0 (- 1074)),
      (Finite False 4503599627370496 (- 52), Finite False 0 (- 1074)),
      (Finite False 0 (- 1074), Finite False 4503599627370496 (- 52))],
      all_points = [(Finite False 0 (- 1074), Finite False 0 (- 1074)),
      (Finite False 4503599627370496 (- 52), Finite False 0 (- 1074)),
      (Finite False 0 (- 1074), Finite False 4503599627370496 (- 52)),
      (Finite True 5488762045857792 (- 48), Finite True 4503599627370496 (- 53)),
      (Finite False 4503599627370496 (- 53), Finite False 5770237022568448 (- 48)),
      (Finite False 5770237022568448 (- 48), Finite True 4503599627370496 (- 53))],
      triangulation = [(5, 3, 0), (4, 5, 1), (5, 0, 1), (3, 4, 2), (0, 3, 2), (4, 1, 2), (1, 0, 2)]\<rparr>"
  by (simp add: run_triangulation_def nodes_three run_eval circ_0 circ_1 circ_2 circ_3 circ_4 circ_5 circ_6 circ_7 circ_8 cong: fl_cong)

lemma nodes_square:
  "super_triangle_nodes
     [(Finite False 0 (- 1074), Finite False 0 (- 1074)),
      (Finite False 4503599627370496 (- 52), Finite False 0 (- 1074)),
      (Finite False 4503599627370496 (- 52), Finite False 4503599627370496 (- 52)),
      (Finite False 0 (- 1074), Finite False 4503599627370496 (- 52))]
   = Inr [(Finite True 5488762045857792 (- 48), Finite True 4503599627370496 (- 53)),
      (Finite False 4503599627370496 (- 53), Finite False 5770237022568448 (- 48)),
      (Finite False 5770237022568448 (- 48), Finite True 4503599627370496 (- 53))]"
  by (simp add: super_triangle_nodes_def py_min_def py_max_def fl_eval cong: fl_cong)

lemma circ_9:
  "in_circumcircle
     (Finite False 4503599627370496 (- 52), Finite False 4503599627370496 (- 52))
     (Finite True 5488762045857792 (- 48), Finite True 4503599627370496 (- 53))
     (Finite False 4503599627370496 (- 53), Finite False 5770237022568448 (- 48))
     (Finite False 0 (- 1074), Finite False 0 (- 1074))
   = Inr False"
  by (simp add: in_circumcircle_def circum_d_def fl_eval cong: fl_cong)

lemma circ_10:
  "in_circumcircle
     (Finite False 4503599627370496 (- 52), Finite False 4503599627370496 (- 52))
     (Finite False 5770237022568448 (- 48), Finite True 4503599627370496 (- 53))
     (Finite True 5488762045857792 (- 48), Finite True 4503599627370496 (- 53))
     (Finite False 0 (- 1074), Finite False 0 (- 1074))
   = Inr False"
  by (simp add: in_circumcircle_def circum_d_def fl_eval cong: fl_cong)

lemma circ_11:
  "in_circumcircle
     (Finite False 4503599627370496 (- 52), Finite False 4503599627370496 (- 52))
     (Finite False 4503599627370496 (- 53), Finite False 5770237022568448 (- 48))
     (Finite False 5770237022568448 (- 48), Finite True 4503599627370496 (- 53))
     (Finite False 4503599627370496 (- 52), Finite False 0 (- 1074))
   = Inr True"
  by (simp add: in_circumcircle_def circum_d_def fl_eval cong: fl_cong)

lemma circ_12:
  "in_circumcircle
     (Finite False 4503599627370496 (- 52), Finite False 4503599627370496 (- 52))
     (Finite False 5770237022568448 (- 48), Finite True 4503599627370496 (- 53))
     (Finite False 0 (- 1074), Finite False 0 (- 1074))
     (Finite False 4503599627370496 (- 52), Finite False 0 (- 1074))
   = Inr False"
  by (simp add: in_circumcircle_def circum_d_def fl_eval cong: fl_cong)

lemma circ_13:
  "in_circumcircle
     (Finite False 4503599627370496 (- 52), Finite False 4503599627370496 (- 52))
     (Finite False 0 (- 1074), Finite False 0 (- 1074))
     (Finite False 4503599627370496 (- 53), Finite False 5770237022568448 (- 48))
     (Finite False 4503599627370496 (- 52), Finite False 0 (- 1074))
   = Inr True"
  by (simp add: in_circumcircle_def circum_d_def fl_eval cong: fl_cong)

lemma circ_14:
  "in_circumcircle
     (Finite False 0 (- 1074), Finite False 4503599627370496 (- 52))
     (Finite False 4503599627370496 (- 53), Finite False 5770237022568448 (- 48))
     (Finite False 5770237022568448 (- 48), Finite True 4503599627370496 (- 53))
     (Finite False 4503599627370496 (- 52), Finite False 4503599627370496 (- 52))
   = Inr False"
  by (simp add: in_circumcircle_def circum_d_def fl_eval cong: fl_cong)

lemma circ_15:
  "in_circumcircle
     (Finite False 0 (- 1074), Finite False 4503599627370496 (- 52))
     (Finite False 5770237022568448 (- 48), Finite True 4503599627370496 (- 53))
     (Finite False 4503599627370496 (- 52), Finite False 0 (- 1074))
     (Finite False 4503599627370496 (- 52), Finite False 4503599627370496 (- 52))
   = Inr False"
  by (simp add: in_circumcircle_def circum_d_def fl_eval cong: fl_cong)

lemma circ_16:
  "in_circumcircle
     (Finite False 0 (- 1074), Finite False 4503599627370496 (- 52))
     (Finite False 0 (- 1074), Finite False 0 (- 1074))
     (Finite False 4503599627370496 (- 53), Finite False 5770237022568448 (- 48))
     (Finite False 4503599627370496 (- 52), Finite False 4503599627370496 (- 52))
   = Inr True"
  by (simp add: in_circumcircle_def circum_d_def fl_eval cong: fl_cong)

lemma circ_17:
  "in_circumcircle
     (Finite False 0 (- 1074), Finite False 4503599627370496 (- 52))
     (Finite False 4503599627370496 (- 52), Finite False 0 (- 1074))
     (Finite False 0 (- 1074), Finite False 0 (- 1074))
     (Finite False 4503599627370496 (- 52), Finite False 4503599627370496 (- 52))
   = Inr False"
  by (simp add: in_circumcircle_def circum_d_def fl_eval cong: fl_cong)

lemma run_square:
  "run_triangulation
     [(Finite False 0 (- 1074), Finite False 0 (- 1074)),
      (Finite False 4503599627370496 (- 52), Finite False 0 (- 1074)),
      (Finite False 4503599627370496 (- 52), Finite False 4503599627370496 (- 52)),
      (Finite False 0 (- 1074), Finite False 4503599627370496 (- 52))]
   = Inr \<lparr>ps_points = [(Finite False 0 (- 1074), Finite False 0 (- 1074)),
      (Finite False 4503599627370496 (- 52), Finite False 0 (- 1074)),
      (Finite False 4503599627370496 (- 52), Finite False 4503599627370496 (- 52)),
      (Finite False 0 (- 1074), Finite False 4503599627370496 (- 52))],
      all_points = [(Finite False 0 (- 1074), Finite False 0 (- 1074)),
      (Finite False 4503599627370496 (- 52), Finite False 0 (- 1074)),
      (Finite False 4503599627370496 (- 52), Finite False 4503599627370496 (- 52)),
      (Finite False 0 (- 1074), Finite False 4503599627370496 (- 52)),
      (Finite True 5488762045857792 (- 48), Finite True 4503599627370496 (- 53)),
      (Finite False 4503599627370496 (- 53), Finite False 5770237022568448 (- 48)),
      (Finite False 5770237022568448 (- 48), Finite True 4503599627370496 (- 53))],
      triangulation = [(6, 4, 0), (6, 0, 1), (5, 6, 2), (6, 1, 2), (1, 0, 2), (4, 5, 3), (0, 4, 3), (5, 2, 3), (2, 0, 3)]\<rparr>"
  by (simp add: run_triangulation_def nodes_square run_eval circ_0 circ_1 circ_2 circ_3 circ_9 circ_10 circ_11 circ_12 circ_13 circ_4 circ_5 circ_7 circ_14 circ_15 circ_16 circ_17 cong: fl_cong)






section \<open>What a run leaves behind\<close>

lemma insert_loop_frame:
  "insert_loop i rest st = Inr st' \<Longrightarrow>
   ps_points st' = ps_points st \<and> all_points st' = all_points st"
proof (induction rest arbitrary: i st)
  case Nil
  then show ?case by simp
next
  case (Cons p rest)
  from Cons.prems obtain st1 where st1: "insert_point i p st = Inr st1"
    "insert_loop (i + 1) rest st1 = Inr st'"
    by (auto split: sum.splits)
  from st1(1) have "ps_points st1 = ps_points st" "all_points st1 = all_points st"
    by (auto elim!: insert_point_unfold)
  with Cons.IH[OF st1(2)] show ?case by simp
qed

lemma super_triangle_nodes_length:
  "super_triangle_nodes pts = Inr nodes \<Longrightarrow> length nodes = 3"
  by (auto simp: super_triangle_nodes_def Let_def split: sum.splits)

lemma run_triangulation_frame:
  assumes "run_triangulation pts = Inr st"
  shows "ps_points st = pts" and "\<exists>nodes. length nodes = 3 \<and> all_points st = pts @ nodes"
proof -
  from assms obtain nodes where n: "super_triangle_nodes pts = Inr nodes"
    and l: "insert_loop 0 pts
               \<lparr>ps_points = pts, all_points = pts @ nodes,
                triangulation = [(int (length pts), int (length pts) + 1, int (length pts) + 2)]\<rparr>
             = Inr st"
    by (auto simp: run_triangulation_def Let_def split: sum.splits)
  from insert_loop_frame[OF l] show "ps_points st = pts" by simp
  from insert_loop_frame[OF l] super_triangle_nodes_length[OF n]
  show "\<exists>nodes. length nodes = 3 \<and> all_points st = pts @ nodes" by auto
qed

text \<open>
  Claim C9. A call of \<open>triangulate\<close>, whether it returns a mesh or raises, leaves
  the Triangulator and the point list of its PointSet as they were; the list the
  run extends with the three super-triangle vertices is a separate one, which
  holds the input points followed by exactly three more, and the mesh returned
  holds the PointSet it was given.
\<close>

theorem C9_points_not_mutated:
  "snd (triangulate self) = self
   \<and> (\<forall>st. run_triangulation (points (point_set self)) = Inr st \<longrightarrow>
         ps_points st = points (point_set self) \<and>
         (\<exists>nodes. length nodes = 3 \<and> all_points st = points (point_set self) @ nodes))
   \<and> (\<forall>m. fst (triangulate self) = Inr m \<longrightarrow> pointset m = point_set self)"
proof -
  have 2: "ps_points st = points (point_set self) \<and>
         (\<exists>nodes. length nodes = 3 \<and> all_points st = points (point_set self) @ nodes)"
    if "run_triangulation (points (point_set self)) = Inr st" for st
    using run_triangulation_frame[OF that] by simp
  have 1: "snd (triangulate self) = self"
  proof (cases "run_triangulation (points (point_set self))")
    case (Inl e)
    then show ?thesis by (simp add: triangulate_def)
  next
    case (Inr st)
    then have "ps_points st = points (point_set self)" using 2 by simp
    then show ?thesis using Inr by (simp add: triangulate_def)
  qed
  have 3: "pointset m = point_set self" if "fst (triangulate self) = Inr m" for m
  proof (cases "run_triangulation (points (point_set self))")
    case (Inl e)
    then show ?thesis using that by (simp add: triangulate_def)
  next
    case (Inr st)
    then have "ps_points st = points (point_set self)" using 2 by simp
    then show ?thesis using Inr that
      by (auto simp: triangulate_def Triangles_init_def Let_def split: sum.splits)
  qed
  from 1 2 3 show ?thesis by blast
qed

lemma triangulate_three:
  "fst (triangulate \<lparr>point_set = three_points\<rparr>)
     = Inr \<lparr>pointset = three_points, triangles = [[1, 0, 2]]\<rparr>"
  unfolding triangulate_def
  by (simp add: three_points_def zero_f_def one_f_def run_three final_triangles_def tuple_list_def
      Triangles_init_def validate_triangles_def validate_indices_number_def
      validate_indices_in_range_def unpack3_def validate_distinct_vertices_def
      validate_not_duplicate_def card_insert_if)

theorem C9_witness:
  "snd (triangulate \<lparr>point_set = three_points\<rparr>) = \<lparr>point_set = three_points\<rparr>
   \<and> (\<exists>st. run_triangulation (points three_points) = Inr st \<and> ps_points st = points three_points
          \<and> length (all_points st) = 6 \<and> take 3 (all_points st) = points three_points)
   \<and> pointset \<lparr>pointset = three_points, triangles = [[1, 0, 2]]\<rparr> = three_points"
proof -
  obtain st where st: "run_triangulation (points three_points) = Inr st"
    using run_three by (simp add: three_points_def zero_f_def one_f_def)
  have "ps_points st = points three_points \<and>
         (\<exists>nodes. length nodes = 3 \<and> all_points st = points three_points @ nodes)"
    using C9_points_not_mutated[of "\<lparr>point_set = three_points\<rparr>"] st by simp
  moreover have "length (points three_points) = 3" by (simp add: three_points_def)
  ultimately have "ps_points st = points three_points" "length (all_points st) = 6"
    "take 3 (all_points st) = points three_points" by auto
  with st show ?thesis
    using C9_points_not_mutated[of "\<lparr>point_set = three_points\<rparr>"] triangulate_three by auto
qed

lemma decode_unit_square: "build_from_bytes unit_square_buffer = Inr (points square_points)"
  by (simp add: unit_square_buffer_def codec_eval square_points_def zero_f_def one_f_def)

text \<open>
  Claim C2. The buffer of the unit square \<open>(0,0), (1,0), (1,1), (0,1)\<close> decodes to
  four points on which a Triangulator is built, and \<open>triangulate\<close> returns the mesh
  of the two triangles \<open>(1, 0, 2)\<close> and \<open>(2, 0, 3)\<close>: exactly 2 triangles, whose
  indices are together exactly \<open>0, 1, 2, 3\<close>, so every index lies in \<open>[0, 4)\<close>.
\<close>

theorem C2_unit_square:
  "PointSet_init unit_square_buffer = Inr square_points
   \<and> Triangulator_init square_points = Inr \<lparr>point_set = square_points\<rparr>
   \<and> fst (triangulate \<lparr>point_set = square_points\<rparr>)
       = Inr \<lparr>pointset = square_points, triangles = [[1, 0, 2], [2, 0, 3]]\<rparr>
   \<and> length [[1, 0, 2], [2, 0, 3 :: int]] = 2
   \<and> set (concat [[1, 0, 2], [2, 0, 3 :: int]]) = {0, 1, 2, 3}"
proof -
  have a: "PointSet_init unit_square_buffer = Inr square_points"
    using decode_unit_square by (simp add: PointSet_init_def square_points_def)
  have b: "Triangulator_init square_points = Inr \<lparr>point_set = square_points\<rparr>"
    by (simp add: Triangulator_init_def validate_min_points_def validate_no_duplicates_def
        square_points_def point_eq_def zero_f_def one_f_def sgn_int_def)
  have c: "fst (triangulate \<lparr>point_set = square_points\<rparr>)
       = Inr \<lparr>pointset = square_points, triangles = [[1, 0, 2], [2, 0, 3]]\<rparr>"
    unfolding triangulate_def
    by (simp add: square_points_def zero_f_def one_f_def run_square final_triangles_def tuple_list_def
      Triangles_init_def validate_triangles_def validate_indices_number_def
      validate_indices_in_range_def unpack3_def validate_distinct_vertices_def
      validate_not_duplicate_def card_insert_if)
  have d: "set (concat [[1, 0, 2], [2, 0, 3 :: int]]) = {0, 1, 2, 3}" by auto
  from a b c d show ?thesis by simp
qed

section \<open>Bounds on the magnitude of the floats of a run\<close>

text \<open>
  \<open>bnd k x\<close>: a finite \<open>x\<close> is below \<open>2\<^sup>k\<close> in magnitude; \<open>big_enough l x\<close>: a finite
  \<open>x\<close> is at least \<open>2\<^sup>l\<^sup>-\<^sup>1\<close> in magnitude. Infinities and NaNs satisfy both, since no
  operation raises on them except a division by zero.
\<close>

lemma bnd_simps [simp]:
  "bnd k (Finite s m e) = (0 \<le> m \<and> (m = 0 \<or> bitlen m + e \<le> k))"
  "bnd k (Infinity s)" "bnd k (NaN s p)"
  by (simp_all add: bnd_def)

lemma bnd_mono: "bnd j x \<Longrightarrow> j \<le> k \<Longrightarrow> bnd k x"
  by (cases x) auto

lemma int_div_less:
  fixes n a b :: int
  assumes "n < a * b" "0 < a"
  shows "n div a < b"
proof (rule ccontr)
  assume "\<not> n div a < b"
  then have "b \<le> n div a" by simp
  then have "a * b \<le> a * (n div a)" using assms(2) by (intro mult_left_mono) simp_all
  moreover have "a * (n div a) + n mod a = n" by (rule mult_div_mod_eq)
  moreover have "0 \<le> n mod a" using assms(2) by (rule pos_mod_sign)
  ultimately show False using assms(1) by linarith
qed

lemma bitlen_leI: "0 \<le> j \<Longrightarrow> x < 2 ^ nat j \<Longrightarrow> bitlen x \<le> j"
  by (simp add: bitlen_le_iff_power)

lemma bitlen_less_pow: "0 \<le> x \<Longrightarrow> x < 2 ^ nat (bitlen x)"
  using bitlen_bounds[of x] by (cases "x = 0") simp_all

lemma bitlen_mult_le:
  assumes "0 \<le> a" "0 \<le> b"
  shows "bitlen (a * b) \<le> bitlen a + bitlen b"
proof -
  have "a * b < 2 ^ nat (bitlen a) * 2 ^ nat (bitlen b)"
    using bitlen_less_pow[OF assms(1)] bitlen_less_pow[OF assms(2)] assms
    by (intro mult_strict_mono') simp_all
  also have "\<dots> = 2 ^ nat (bitlen a + bitlen b)"
    using bitlen_nonneg[of a] bitlen_nonneg[of b] by (simp add: nat_add_distrib power_add)
  finally show ?thesis
    using bitlen_nonneg[of a] bitlen_nonneg[of b] by (intro bitlen_leI) simp_all
qed

lemma rne_bounds:
  assumes "0 \<le> n"
  shows "0 \<le> rne n sh" and "rne n sh \<le> n div 2 ^ sh + 1"
  using assms by (auto simp: rne_def Let_def pos_imp_zdiv_nonneg_iff)

lemma rne_bitlen:
  assumes n: "0 \<le> n"
  shows "bitlen (rne n sh) \<le> max (bitlen n - int sh) 0 + 1"
proof -
  define j where "j = nat (max (bitlen n - int sh) 0)"
  have "n < 2 ^ nat (bitlen n)" by (rule bitlen_less_pow[OF n])
  also have "(2::int) ^ nat (bitlen n) \<le> 2 ^ (sh + j)"
    by (intro power_increasing) (simp_all add: j_def)
  finally have "n < 2 ^ sh * 2 ^ j" by (simp add: power_add)
  then have "n div 2 ^ sh < 2 ^ j" by (intro int_div_less) simp_all
  then have "rne n sh < 2 ^ j + 1" using rne_bounds(2)[OF n, of sh] by simp
  moreover have "(0::int) < 2 ^ j" by simp
  ultimately have "rne n sh < 2 * 2 ^ j" by linarith
  then have "rne n sh < 2 ^ nat (int j + 1)"
    by (simp add: nat_add_distrib)
  then have "bitlen (rne n sh) \<le> int j + 1" by (intro bitlen_leI) simp_all
  then show ?thesis by (simp add: j_def)
qed

lemma bitlen_one: "bitlen 1 = 1"
  by (subst compute_bitlen) simp

lemma bitlen_two_power: "bitlen (2 ^ k) = int k + 1"
  using bitlen_pow2[of 1 k] by (simp add: bitlen_one)

lemma round_fmt_result:
  assumes n: "0 \<le> n" and fmt: "emin \<le> emax" "0 < p"
  obtains m' e' where "0 \<le> m'"
    and "m' = 0 \<or> bitlen m' + e' \<le> max (bitlen n + e) emin + 1"
    and "e' \<le> max (bitlen n + e - int p) emin + 1"
    and "round_fmt p emin emax s n e = (if emax < e' then Infinity s else Finite s m' e')"
proof (cases "n = 0")
  case True
  show ?thesis
    using fmt by (intro that[of 0 emin]) (simp_all add: True round_fmt_def)
next
  case False
  then have pos: "0 < n" using n by simp
  define sh where "sh = max (bitlen n - int p) (emin - e)"
  define m where "m = (if sh \<le> 0 then n * 2 ^ nat (- sh) else rne n (nat sh))"
  define m' where "m' = (if m = 2 ^ p then 2 ^ (p - 1) else m)"
  define e' where "e' = (if m = 2 ^ p then e + sh + 1 else e + sh)"
  have R: "round_fmt p emin emax s n e = (if emax < e' then Infinity s else Finite s m' e')"
    using False by (simp add: round_fmt_def Let_def sh_def m_def m'_def e'_def)
  have m0: "0 \<le> m" using n rne_bounds(1)[OF n] by (simp add: m_def)
  have mb: "m = 0 \<or> bitlen m + (e + sh) \<le> max (bitlen n + e) emin + 1"
  proof (cases "sh \<le> 0")
    case True
    then have "bitlen m = bitlen n + int (nat (- sh))"
      using pos by (simp add: m_def)
    then have "bitlen m + (e + sh) = bitlen n + e" using True by simp
    then show ?thesis by (simp add: max_def)
  next
    case False
    then have "bitlen m \<le> max (bitlen n - sh) 0 + 1"
      using rne_bitlen[OF n, of "nat sh"] by (simp add: m_def)
    moreover have "e + sh = max (bitlen n + e - int p) emin" by (simp add: sh_def)
    ultimately have "bitlen m + (e + sh) \<le> max (bitlen n + e) emin + 1"
      using False by (simp add: max_def split: if_splits)
    then show ?thesis by simp
  qed
  have m'0: "0 \<le> m'" using m0 by (simp add: m'_def)
  have m'b: "m' = 0 \<or> bitlen m' + e' \<le> max (bitlen n + e) emin + 1"
  proof (cases "m = 2 ^ p")
    case True
    then have "bitlen m = int p + 1" by (simp add: bitlen_two_power)
    moreover have "bitlen m' \<le> int p"
      using True fmt(2) by (simp add: m'_def bitlen_two_power)
    ultimately show ?thesis using mb True by (auto simp: e'_def)
  next
    case False
    then show ?thesis using mb by (simp add: m'_def e'_def)
  qed
  have e'b: "e' \<le> max (bitlen n + e - int p) emin + 1"
    by (auto simp: e'_def sh_def)
  show ?thesis by (rule that[OF m'0 m'b e'b R])
qed

lemma round64_zero: "round64 s 0 e = Finite s 0 (- 1074)"
  by (simp add: round64_def round_fmt_def)

lemma round64_bnd:
  assumes "0 \<le> n" "n = 0 \<or> bitlen n + e \<le> k" "- 1074 \<le> k"
  shows "bnd (k + 1) (round64 s n e)"
proof (cases "n = 0")
  case True
  then show ?thesis by (simp add: round64_zero)
next
  case False
  then have b: "bitlen n + e \<le> k" using assms(2) by simp
  have fmt: "(- 1074 :: int) \<le> 971" "0 < (53 :: nat)" by simp_all
  obtain m' e' where r: "0 \<le> m'" "m' = 0 \<or> bitlen m' + e' \<le> max (bitlen n + e) (- 1074) + 1"
    "round_fmt 53 (- 1074) 971 s n e = (if 971 < e' then Infinity s else Finite s m' e')"
    by (rule round_fmt_result[OF assms(1) fmt, where e = e and s = s])
  have "m' = 0 \<or> bitlen m' + e' \<le> k + 1" using r(2) b assms(3) by auto
  then show ?thesis using r(1,3) by (simp add: round64_def)
qed

lemma round64_finite:
  assumes "0 \<le> n" "bitlen n + e \<le> 1023"
  shows "\<exists>m' e'. round64 s n e = Finite s m' e'"
proof -
  have fmt: "(- 1074 :: int) \<le> 971" "0 < (53 :: nat)" by simp_all
  obtain m' e' where r: "e' \<le> max (bitlen n + e - int 53) (- 1074) + 1"
    "round_fmt 53 (- 1074) 971 s n e = (if 971 < e' then Infinity s else Finite s m' e')"
    by (rule round_fmt_result[OF assms(1) fmt, where e = e and s = s])
  have "\<not> 971 < e'" using r(1) assms(2) by simp
  then show ?thesis using r(2) by (simp add: round64_def)
qed

lemma fneg_bnd [simp]: "bnd k (fneg x) = bnd k x"
  by (cases x) simp_all

lemma shifted_less:
  assumes "0 \<le> m" "m = 0 \<or> bitlen m + e1 \<le> k" "e \<le> e1"
  shows "m * 2 ^ nat (e1 - e) < 2 ^ nat (k - e)"
proof (cases "m = 0")
  case True
  then show ?thesis by simp
next
  case False
  then have pos: "0 < m" and b: "bitlen m + e1 \<le> k" using assms by simp_all
  have "bitlen (m * 2 ^ nat (e1 - e)) = bitlen m + int (nat (e1 - e))"
    by (rule bitlen_pow2[OF pos])
  then have "bitlen (m * 2 ^ nat (e1 - e)) \<le> k - e" using b assms(3) by simp
  then show ?thesis by (simp add: bitlen_le_iff_power)
qed

lemma fadd_bnd:
  assumes "bnd k a" "bnd k b" "- 1074 \<le> k"
  shows "bnd (k + 2) (fadd a b)"
proof (cases a)
  case (Finite s1 m1 e1)
  note A = this
  show ?thesis
  proof (cases b)
    case (Finite s2 m2 e2)
    define e where "e = min e1 e2"
    define n where "n = sgn_int s1 m1 * 2 ^ nat (e1 - e) + sgn_int s2 m2 * 2 ^ nat (e2 - e)"
    have F: "fadd a b = (if n = 0 then Finite (s1 \<and> s2) 0 (- 1074) else round64 (n < 0) \<bar>n\<bar> e)"
      by (simp add: A Finite Let_def e_def n_def)
    show ?thesis
    proof (cases "n = 0")
      case True
      then show ?thesis using F by simp
    next
      case False
      have a1: "0 \<le> m1" "m1 = 0 \<or> bitlen m1 + e1 \<le> k" using assms(1) A by simp_all
      have a2: "0 \<le> m2" "m2 = 0 \<or> bitlen m2 + e2 \<le> k" using assms(2) Finite by simp_all
      have l1: "m1 * 2 ^ nat (e1 - e) < 2 ^ nat (k - e)"
        using a1 by (intro shifted_less) (simp_all add: e_def)
      have l2: "m2 * 2 ^ nat (e2 - e) < 2 ^ nat (k - e)"
        using a2 by (intro shifted_less) (simp_all add: e_def)
      have "\<bar>sgn_int s1 m1 * 2 ^ nat (e1 - e)\<bar> = m1 * 2 ^ nat (e1 - e)"
        using a1(1) by (simp add: sgn_int_def abs_mult)
      moreover have "\<bar>sgn_int s2 m2 * 2 ^ nat (e2 - e)\<bar> = m2 * 2 ^ nat (e2 - e)"
        using a2(1) by (simp add: sgn_int_def abs_mult)
      ultimately have "\<bar>n\<bar> \<le> m1 * 2 ^ nat (e1 - e) + m2 * 2 ^ nat (e2 - e)"
        unfolding n_def using abs_triangle_ineq[of "sgn_int s1 m1 * 2 ^ nat (e1 - e)"
            "sgn_int s2 m2 * 2 ^ nat (e2 - e)"] by simp
      then have lt: "\<bar>n\<bar> < 2 * 2 ^ nat (k - e)" using l1 l2 by linarith
      have ke: "0 \<le> k - e"
      proof (rule ccontr)
        assume "\<not> 0 \<le> k - e"
        then have "nat (k - e) = 0" by simp
        have "m1 * 2 ^ nat (e1 - e) < 1" "m2 * 2 ^ nat (e2 - e) < 1"
          using l1 l2 \<open>nat (k - e) = 0\<close> by simp_all
        moreover have "0 \<le> m1 * 2 ^ nat (e1 - e)" "0 \<le> m2 * 2 ^ nat (e2 - e)"
          using a1(1) a2(1) by simp_all
        ultimately have "m1 * 2 ^ nat (e1 - e) = 0" "m2 * 2 ^ nat (e2 - e) = 0"
          by linarith+
        then have "m1 = 0" "m2 = 0" by simp_all
        then have "n = 0" by (simp add: n_def sgn_int_def)
        with False show False by simp
      qed
      have "\<bar>n\<bar> < 2 ^ nat (k - e + 1)" using lt ke by (simp add: nat_add_distrib)
      then have "bitlen \<bar>n\<bar> \<le> k - e + 1" using ke by (intro bitlen_leI) simp_all
      then have "bnd (k + 1 + 1) (round64 (n < 0) \<bar>n\<bar> e)"
        using assms(3) by (intro round64_bnd) simp_all
      then show ?thesis using F False by (simp add: add.commute)
    qed
  qed (simp_all add: A)
next
  case (Infinity s)
  then show ?thesis by (cases b) (simp_all add: default_nan_def)
next
  case (NaN s p)
  then show ?thesis by simp
qed

lemma fsub_bnd: "bnd k a \<Longrightarrow> bnd k b \<Longrightarrow> - 1074 \<le> k \<Longrightarrow> bnd (k + 2) (fsub a b)"
  unfolding fsub_def by (rule fadd_bnd) simp_all

lemma fmul_bnd:
  assumes "bnd j a" "bnd k b" "- 1074 \<le> j + k"
  shows "bnd (j + k + 1) (fmul a b)"
proof (cases a)
  case (Finite s1 m1 e1)
  note A = this
  show ?thesis
  proof (cases b)
    case (Finite s2 m2 e2)
    have a1: "0 \<le> m1" "m1 = 0 \<or> bitlen m1 + e1 \<le> j" using assms(1) A by simp_all
    have a2: "0 \<le> m2" "m2 = 0 \<or> bitlen m2 + e2 \<le> k" using assms(2) Finite by simp_all
    have n0: "0 \<le> m1 * m2" using a1(1) a2(1) by simp
    have "m1 * m2 = 0 \<or> bitlen (m1 * m2) + (e1 + e2) \<le> j + k"
    proof (cases "m1 * m2 = 0")
      case False
      then have "bitlen m1 + e1 \<le> j" "bitlen m2 + e2 \<le> k" using a1(2) a2(2) by auto
      then show ?thesis using bitlen_mult_le[OF a1(1) a2(1)] by simp
    qed simp
    then have "bnd (j + k + 1) (round64 (s1 \<noteq> s2) (m1 * m2) (e1 + e2))"
      using n0 assms(3) by (intro round64_bnd)
    then show ?thesis by (simp add: A Finite)
  next
    case (Infinity t)
    then show ?thesis by (simp add: A default_nan_def)
  next
    case (NaN t p)
    then show ?thesis by (simp add: A)
  qed
next
  case (Infinity s)
  then show ?thesis by (cases b) (simp_all add: default_nan_def)
next
  case (NaN s p)
  then show ?thesis by simp
qed

lemma big_enough_simps [simp]:
  "big_enough l (Finite s m e) = (0 < m \<and> l \<le> bitlen m + e)"
  "big_enough l (Infinity s)" "big_enough l (NaN s p)"
  by (simp_all add: big_enough_def)

lemma quotient_bnd:
  assumes m1: "0 < m1" and m2: "0 < m2"
    and k: "k = nat (bitlen m2 + 55 - bitlen m1)"
    and st: "st = 0 \<or> st = 1"
  shows "0 \<le> 2 * (m1 * 2 ^ k div m2) + st"
    and "bitlen (2 * (m1 * 2 ^ k div m2) + st) \<le> bitlen m1 + int k - bitlen m2 + 2"
proof -
  define j where "j = bitlen m1 + int k - bitlen m2 + 1"
  define q where "q = m1 * 2 ^ k div m2"
  have "\<not> bitlen m1 \<le> 0" "\<not> bitlen m2 \<le> 0"
    using m1 m2 by (simp_all add: bitlen_le_iff_power)
  then have b1: "0 < bitlen m1" and b2: "0 < bitlen m2" by simp_all
  have j0: "0 \<le> j" using k by (simp add: j_def)
  have q0: "0 \<le> q" using m1 m2 by (simp add: q_def pos_imp_zdiv_nonneg_iff)
  have "m1 * 2 ^ k < 2 ^ nat (bitlen m1) * 2 ^ k"
    using bitlen_less_pow[of m1] m1 by simp
  also have "\<dots> = 2 ^ nat (bitlen m2 - 1) * 2 ^ nat j"
    using b1 b2 j0 by (simp add: j_def power_add[symmetric] nat_add_distrib[symmetric] del: power_add)
  also have "\<dots> \<le> m2 * 2 ^ nat j"
    using bitlen_bounds[OF m2] by (intro mult_right_mono) simp_all
  finally have "q < 2 ^ nat j" unfolding q_def using m2 by (intro int_div_less) simp_all
  then have "2 * q + st < 2 * 2 ^ nat j" using st by auto
  then have "2 * q + st < 2 ^ nat (j + 1)" using j0 by (simp add: nat_add_distrib)
  then have "bitlen (2 * q + st) \<le> j + 1" using j0 by (intro bitlen_leI) simp_all
  then show "bitlen (2 * (m1 * 2 ^ k div m2) + st) \<le> bitlen m1 + int k - bitlen m2 + 2"
    by (simp add: q_def j_def)
  show "0 \<le> 2 * (m1 * 2 ^ k div m2) + st" using q0 st by (auto simp: q_def)
qed

lemma fdiv_finite_bnd:
  assumes a: "0 \<le> m1" "m1 = 0 \<or> bitlen m1 + e1 \<le> k"
    and d: "0 < m2" "l \<le> bitlen m2 + e2"
    and kl: "- 1074 \<le> k - l + 1"
  shows "\<exists>r. fdiv (Finite s m1 e1) (Finite t m2 e2) = Inr r \<and> bnd (k - l + 2) r"
proof (cases "m1 = 0")
  case True
  then show ?thesis using d by simp
next
  case False
  then have m1: "0 < m1" and b: "bitlen m1 + e1 \<le> k" using a by simp_all
  define kk where "kk = nat (bitlen m2 + 55 - bitlen m1)"
  define st :: int where "st = (if m1 * 2 ^ kk mod m2 = 0 then 0 else 1)"
  define n where "n = 2 * (m1 * 2 ^ kk div m2) + st"
  have st: "st = 0 \<or> st = 1" by (simp add: st_def)
  have F: "fdiv (Finite s m1 e1) (Finite t m2 e2) = Inr (round64 (s \<noteq> t) n (e1 - e2 - int kk - 1))"
    using False d(1) by (simp add: Let_def kk_def st_def n_def)
  have n0: "0 \<le> n" unfolding n_def by (rule quotient_bnd(1)[OF m1 d(1) kk_def st])
  have "bitlen n \<le> bitlen m1 + int kk - bitlen m2 + 2"
    unfolding n_def by (rule quotient_bnd(2)[OF m1 d(1) kk_def st])
  then have "bitlen n + (e1 - e2 - int kk - 1) \<le> k - l + 1" using b d(2) by simp
  then have "bnd (k - l + 1 + 1) (round64 (s \<noteq> t) n (e1 - e2 - int kk - 1))"
    using n0 kl by (intro round64_bnd) simp_all
  then show ?thesis using F by (simp add: add.commute)
qed

lemma fdiv_bnd:
  assumes "bnd k a" "big_enough l d" "- 1074 \<le> k - l + 1"
  shows "\<exists>r. fdiv a d = Inr r \<and> bnd (k - l + 2) r"
proof (cases d)
  case (Finite t m2 e2)
  note D = this
  show ?thesis
  proof (cases a)
    case (Finite s m1 e1)
    show ?thesis unfolding Finite D
      using assms by (intro fdiv_finite_bnd) (simp_all add: Finite D)
  qed (use assms D in simp_all)
next
  case (Infinity t)
  then show ?thesis by (cases a) (simp_all add: default_nan_def)
next
  case (NaN t q)
  then show ?thesis by (cases a) simp_all
qed

lemma fpow2_total:
  assumes "bnd 511 x"
  shows "\<exists>r. fpow2 x = Inr r"
proof (cases x)
  case (Finite s m e)
  have m0: "0 \<le> m" using assms Finite by simp
  have "\<exists>m' e'. round64 False (m * m) (2 * e) = Finite False m' e'"
  proof (cases "m = 0")
    case True
    then show ?thesis by (simp add: round64_zero)
  next
    case False
    then have "bitlen m + e \<le> 511" using assms Finite by simp
    then have "bitlen (m * m) + 2 * e \<le> 1023" using bitlen_mult_le[OF m0 m0] by simp
    then show ?thesis using m0 by (intro round64_finite) simp_all
  qed
  then obtain m' e' where "round64 False (m * m) (2 * e) = Finite False m' e'" by blast
  then show ?thesis by (simp add: Finite)
qed simp_all

lemma guard_big_enough:
  assumes "\<not> flt (fabs d) eps" "bnd k d"
  shows "big_enough (- 29) d"
proof (cases d)
  case (Finite s m e)
  define e0 where "e0 = min e (- 82)"
  have m0: "0 \<le> m" using assms(2) Finite by simp
  define P :: int where "P = 2 ^ nat (- 82 - e0)"
  define Q where "Q = m * 2 ^ nat (e - e0)"
  have P0: "0 < P" by (simp add: P_def)
  have ge: "4835703278458517 * P \<le> Q"
    using assms(1) by (simp add: Finite eps_def Let_def sgn_int_def e0_def P_def Q_def)
  have big: "4503599627370496 * P \<le> Q" using ge P0 by linarith
  have mpos: "0 < m"
  proof (rule ccontr)
    assume "\<not> 0 < m"
    then have "m = 0" using m0 by simp
    then have "Q = 0" by (simp add: Q_def)
    then show False using big P0 by linarith
  qed
  have "- 29 \<le> bitlen m + e"
  proof (rule ccontr)
    assume "\<not> - 29 \<le> bitlen m + e"
    then have le: "bitlen m + e \<le> - 30" by simp
    have "m * 2 ^ nat (e - e0) < 2 ^ nat (- 30 - e0)"
      using m0 le by (intro shifted_less) (simp_all add: e0_def)
    also have "nat (- 30 - e0) = 52 + nat (- 82 - e0)" by (simp add: e0_def)
    finally have "Q < 2 ^ 52 * P" by (simp add: power_add P_def Q_def)
    then show False using big by simp
  qed
  then show ?thesis using mpos Finite by simp
qed simp_all

lemma bnd_if: "(c \<Longrightarrow> bnd k a) \<Longrightarrow> (\<not> c \<Longrightarrow> bnd k b) \<Longrightarrow> bnd k (if c then a else b)"
  by simp

lemma f32_fields_bnd:
  fixes fr ex :: int
  assumes fr: "0 \<le> fr" "fr < 2 ^ 23" and ex: "0 \<le> ex" "ex < 256"
  shows "bnd 128
     (if ex = 255 then (if fr = 0 then Infinity s else NaN s p)
      else if ex = 0 then
        (if fr = 0 then Finite s 0 (- 1074)
         else Finite s (fr * 2 ^ nat (53 - bitlen fr)) (- 149 - int (nat (53 - bitlen fr))))
      else Finite s ((2 ^ 23 + fr) * 2 ^ 29) (ex - 179))"
proof -
  have sub: "bnd 128 (Finite s (fr * 2 ^ k) (- 149 - int k))" if "fr \<noteq> 0" for k
  proof -
    have pos: "0 < fr" using fr that by simp
    have "bitlen fr \<le> 23" using fr by (intro bitlen_leI) simp_all
    moreover have "bitlen (fr * 2 ^ k) = bitlen fr + int k" by (rule bitlen_pow2[OF pos])
    ultimately show ?thesis using fr by simp
  qed
  have nor: "bnd 128 (Finite s ((2 ^ 23 + fr) * 2 ^ 29) (ex - 179))" if "ex \<noteq> 255"
  proof -
    define g where "g = 2 ^ 23 + fr"
    have pos: "0 < g" using fr by (simp add: g_def)
    have "g < 2 ^ nat 24" using fr by (simp add: g_def)
    then have "bitlen g \<le> 24" by (intro bitlen_leI) simp_all
    moreover have "bitlen (g * 2 ^ 29) = bitlen g + int 29" by (rule bitlen_pow2[OF pos])
    ultimately have "0 \<le> g * 2 ^ 29 \<and> bitlen (g * 2 ^ 29) + (ex - 179) \<le> 128"
      using ex pos that by simp
    then show ?thesis unfolding g_def by simp
  qed
  have z: "bnd 128 (Finite s 0 (- 1074))" by simp
  show ?thesis by (intro bnd_if sub nor z bnd_simps(2,3); assumption)
qed

lemma f32_bnd:
  assumes "f32_value x"
  shows "bnd 128 x"
proof -
  obtain w where w: "x = float_of_bits32 w" using assms unfolding f32_value_def by blast
  have 1: "0 \<le> w mod 2 ^ 23" "w mod 2 ^ 23 < 2 ^ 23" by simp_all
  have 2: "0 \<le> w div 2 ^ 23 mod 256" "w div 2 ^ 23 mod 256 < 256" by simp_all
  show ?thesis unfolding w float_of_bits32_unfold by (rule f32_fields_bnd[OF 1 2])
qed

lemma foldl_pick: "foldl (\<lambda>m y. if P y m then y else m) x ys \<in> insert x (set ys)"
  by (induction ys arbitrary: x) (auto split: if_splits)

lemma py_min_in:
  assumes "xs \<noteq> []"
  shows "\<exists>m \<in> set xs. py_min xs = Inr m"
proof (cases xs)
  case (Cons x ys)
  have "foldl (\<lambda>m y. if flt y m then y else m) x ys \<in> insert x (set ys)" by (rule foldl_pick)
  then show ?thesis by (simp add: py_min_def Cons)
qed (use assms in simp)

lemma py_max_in:
  assumes "xs \<noteq> []"
  shows "\<exists>m \<in> set xs. py_max xs = Inr m"
proof (cases xs)
  case (Cons x ys)
  have "foldl (\<lambda>m y. if fgt y m then y else m) x ys \<in> insert x (set ys)" by (rule foldl_pick)
  then show ?thesis by (simp add: py_max_def Cons)
qed (use assms in simp)

lemma float_of_int_2: "float_of_int 2 = Finite False 4503599627370496 (- 51)"
  by (simp add: float_of_int_def round64_def round_fmt_def rne_def Let_def bitlen_numeral_simps)

lemma float_of_int_20: "float_of_int 20 = Finite False 5629499534213120 (- 48)"
  by (simp add: float_of_int_def round64_def round_fmt_def rne_def Let_def bitlen_numeral_simps)

lemma big_enough_2: "big_enough 2 (float_of_int 2)"
  by (simp add: float_of_int_2 bitlen_numeral_simps)

lemma bnd_2: "bnd 2 (float_of_int 2)"
  by (simp add: float_of_int_2 bitlen_numeral_simps)

lemma bnd_20: "bnd 5 (float_of_int 20)"
  by (simp add: float_of_int_20 bitlen_numeral_simps)

lemma super_triangle_nodes_bnd:
  assumes ne: "pts \<noteq> []" and b: "\<forall>p \<in> set pts. pt_bnd 128 p"
  shows "\<exists>nodes. super_triangle_nodes pts = Inr nodes \<and> length nodes = 3
           \<and> (\<forall>q \<in> set nodes. pt_bnd 138 q)"
proof -
  have nx: "map fst pts \<noteq> []" and ny: "map snd pts \<noteq> []" using ne by simp_all
  have bx: "bnd 128 x" if "x \<in> set (map fst pts)" for x using that b by (auto simp: pt_bnd_def)
  have by': "bnd 128 y" if "y \<in> set (map snd pts)" for y using that b by (auto simp: pt_bnd_def)
  obtain min_x where 1: "py_min (map fst pts) = Inr min_x" "bnd 128 min_x"
    using py_min_in[OF nx] bx by blast
  obtain max_x where 2: "py_max (map fst pts) = Inr max_x" "bnd 128 max_x"
    using py_max_in[OF nx] bx by blast
  obtain min_y where 3: "py_min (map snd pts) = Inr min_y" "bnd 128 min_y"
    using py_min_in[OF ny] by' by blast
  obtain max_y where 4: "py_max (map snd pts) = Inr max_y" "bnd 128 max_y"
    using py_max_in[OF ny] by' by blast
  define dx where "dx = fsub max_x min_x"
  define dy where "dy = fsub max_y min_y"
  define delta_max where "delta_max = py_max2 dx dy"
  have dx: "bnd 130 dx" unfolding dx_def using fsub_bnd[OF 2(2) 1(2)] by simp
  have dy: "bnd 130 dy" unfolding dy_def using fsub_bnd[OF 4(2) 3(2)] by simp
  have dm: "bnd 130 delta_max" unfolding delta_max_def py_max2_def using dx dy by simp
  have sx: "bnd 130 (fadd min_x max_x)" using fadd_bnd[OF 1(2) 2(2)] by simp
  have sy: "bnd 130 (fadd min_y max_y)" using fadd_bnd[OF 3(2) 4(2)] by simp
  obtain mid_x where 5: "fdiv (fadd min_x max_x) (float_of_int 2) = Inr mid_x" "bnd 130 mid_x"
    using fdiv_bnd[OF sx big_enough_2] by auto
  obtain mid_y where 6: "fdiv (fadd min_y max_y) (float_of_int 2) = Inr mid_y" "bnd 130 mid_y"
    using fdiv_bnd[OF sy big_enough_2] by auto
  define w where "w = fmul (float_of_int 20) delta_max"
  have w: "bnd 136 w" unfolding w_def using fmul_bnd[OF bnd_20 dm] by simp
  have mx: "bnd 136 mid_x" and my: "bnd 136 mid_y" and dm': "bnd 136 delta_max"
    using 5(2) 6(2) dm by (auto intro: bnd_mono)
  have a1: "bnd 138 (fsub mid_x w)" using fsub_bnd[OF mx w] by simp
  have a2: "bnd 138 (fsub mid_y delta_max)" using fsub_bnd[OF my dm'] by simp
  have a3: "bnd 138 mid_x" using mx by (rule bnd_mono) simp
  have a4: "bnd 138 (fadd mid_y w)" using fadd_bnd[OF my w] by simp
  have a5: "bnd 138 (fadd mid_x w)" using fadd_bnd[OF mx w] by simp
  have "super_triangle_nodes pts =
      Inr [(fsub mid_x w, fsub mid_y delta_max), (mid_x, fadd mid_y w),
           (fadd mid_x w, fsub mid_y delta_max)]"
    unfolding super_triangle_nodes_def
    by (simp add: 1 2 3 4 5 6 dx_def[symmetric] dy_def[symmetric] delta_max_def[symmetric]
        w_def[symmetric] Let_def)
  then show ?thesis using a1 a2 a3 a4 a5 by (simp add: pt_bnd_def)
qed

section \<open>The circumcircle test on bounded coordinates\<close>

lemma fpow2_value: "fpow2 x = Inr r \<Longrightarrow> r = fmul x x"
  by (cases x) (auto split: pyfloat.splits)

lemma dterm_bnd:
  assumes "bnd 138 a" "bnd 138 u" "bnd 138 v"
  shows "bnd 279 (fmul a (fsub u v))"
proof -
  have "bnd 140 (fsub u v)" using fsub_bnd[OF assms(2,3)] by simp
  then show ?thesis using fmul_bnd[OF assms(1), of 140 "fsub u v"] by simp
qed

lemma sum3_bnd:
  assumes "bnd k x" "bnd k y" "bnd k z" "- 1074 \<le> k"
  shows "bnd (k + 4) (fadd (fadd x y) z)"
proof -
  have 1: "bnd (k + 2) (fadd x y)" by (rule fadd_bnd[OF assms(1,2,4)])
  have 2: "bnd (k + 2) z" using assms(3) by (rule bnd_mono) simp
  show ?thesis using fadd_bnd[OF 1 2] assms(4) by (simp add: add.commute)
qed

lemma circum_d_bnd:
  assumes "pt_bnd 138 p1" "pt_bnd 138 p2" "pt_bnd 138 p3"
  shows "bnd 286 (circum_d p1 p2 p3)"
proof -
  have c: "bnd 138 (fst p1)" "bnd 138 (snd p1)" "bnd 138 (fst p2)" "bnd 138 (snd p2)"
    "bnd 138 (fst p3)" "bnd 138 (snd p3)"
    using assms by (simp_all add: pt_bnd_def)
  have "bnd (279 + 4)
     (fadd (fadd (fmul (fst p1) (fsub (snd p2) (snd p3))) (fmul (fst p2) (fsub (snd p3) (snd p1))))
           (fmul (fst p3) (fsub (snd p1) (snd p2))))"
    by (intro sum3_bnd dterm_bnd c) simp
  then show ?thesis
    unfolding circum_d_def Let_def using fmul_bnd[OF bnd_2, of 283] by simp
qed

lemma nterm_bnd:
  assumes "bnd 138 a" "bnd 138 b" "bnd 138 u" "bnd 138 v"
  shows "bnd 420 (fmul (fadd (fmul a a) (fmul b b)) (fsub u v))"
proof -
  have 1: "bnd 277 (fmul a a)" using fmul_bnd[OF assms(1,1)] by simp
  have 2: "bnd 277 (fmul b b)" using fmul_bnd[OF assms(2,2)] by simp
  have 3: "bnd 279 (fadd (fmul a a) (fmul b b))" using fadd_bnd[OF 1 2] by simp
  have 4: "bnd 140 (fsub u v)" using fsub_bnd[OF assms(3,4)] by simp
  show ?thesis using fmul_bnd[OF 3 4] by simp
qed

lemma circumcenter_bnd:
  assumes b: "pt_bnd 138 p1" "pt_bnd 138 p2" "pt_bnd 138 p3"
    and g: "\<not> flt (fabs (circum_d p1 p2 p3)) eps"
  shows "\<exists>ux uy. circumcenter p1 p2 p3 = Inr (ux, uy) \<and> bnd 455 ux \<and> bnd 455 uy"
proof -
  have c: "bnd 138 (fst p1)" "bnd 138 (snd p1)" "bnd 138 (fst p2)" "bnd 138 (snd p2)"
    "bnd 138 (fst p3)" "bnd 138 (snd p3)"
    using b by (simp_all add: pt_bnd_def)
  define d where "d = circum_d p1 p2 p3"
  have d: "big_enough (- 29) d"
    unfolding d_def using g circum_d_bnd[OF b] by (rule guard_big_enough)
  define nx where "nx = fadd (fadd (fmul (fadd (fmul (fst p1) (fst p1)) (fmul (snd p1) (snd p1))) (fsub (snd p2) (snd p3)))
                                 (fmul (fadd (fmul (fst p2) (fst p2)) (fmul (snd p2) (snd p2))) (fsub (snd p3) (snd p1))))
                           (fmul (fadd (fmul (fst p3) (fst p3)) (fmul (snd p3) (snd p3))) (fsub (snd p1) (snd p2)))"
  define ny where "ny = fadd (fadd (fmul (fadd (fmul (fst p1) (fst p1)) (fmul (snd p1) (snd p1))) (fsub (fst p3) (fst p2)))
                                 (fmul (fadd (fmul (fst p2) (fst p2)) (fmul (snd p2) (snd p2))) (fsub (fst p1) (fst p3))))
                           (fmul (fadd (fmul (fst p3) (fst p3)) (fmul (snd p3) (snd p3))) (fsub (fst p2) (fst p1)))"
  have "bnd (420 + 4) nx" unfolding nx_def by (intro sum3_bnd nterm_bnd c) simp
  then have nx: "bnd 424 nx" by simp
  have "bnd (420 + 4) ny" unfolding ny_def by (intro sum3_bnd nterm_bnd c) simp
  then have ny: "bnd 424 ny" by simp
  obtain ux where ux: "fdiv nx d = Inr ux" "bnd 455 ux"
    using fdiv_bnd[OF nx d] by auto
  obtain uy where uy: "fdiv ny d = Inr uy" "bnd 455 uy"
    using fdiv_bnd[OF ny d] by auto
  have "circumcenter p1 p2 p3 = Inr (ux, uy)"
    unfolding circumcenter_def Let_def d_def[symmetric] nx_def[symmetric] ny_def[symmetric]
    by (simp add: ux uy)
  then show ?thesis using ux(2) uy(2) by blast
qed

lemma in_circumcircle_center:
  assumes "circumcenter p1 p2 p3 = Inr ctr"
    and "\<not> flt (fabs (circum_d p1 p2 p3)) eps"
  shows "in_circumcircle p p1 p2 p3 =
     (case fpow2 (fsub (fst ctr) (fst p1)) of Inl e \<Rightarrow> Inl e | Inr rx \<Rightarrow>
      case fpow2 (fsub (snd ctr) (snd p1)) of Inl e \<Rightarrow> Inl e | Inr ry \<Rightarrow>
      case fpow2 (fsub (fst ctr) (fst p)) of Inl e \<Rightarrow> Inl e | Inr qx \<Rightarrow>
      case fpow2 (fsub (snd ctr) (snd p)) of Inl e \<Rightarrow> Inl e | Inr qy \<Rightarrow>
        Inr (flt (fadd qx qy) (fsub (fadd rx ry) eps)))"
  using assms unfolding circumcenter_def in_circumcircle_def Let_def
  by (auto split: sum.splits)

lemma sq_total:
  assumes "bnd 455 u" "bnd 138 a"
  shows "fpow2 (fsub u a) = Inr (fmul (fsub u a) (fsub u a))"
proof -
  have "bnd 455 a" using assms(2) by (rule bnd_mono) simp
  then have "bnd 457 (fsub u a)" using fsub_bnd[OF assms(1), of a] by simp
  then have "bnd 511 (fsub u a)" by (rule bnd_mono) simp
  then obtain r where "fpow2 (fsub u a) = Inr r" using fpow2_total by blast
  then show ?thesis using fpow2_value by simp
qed

lemma in_circumcircle_bounded:
  assumes b: "pt_bnd 138 p" "pt_bnd 138 p1" "pt_bnd 138 p2" "pt_bnd 138 p3"
    and g: "\<not> flt (fabs (circum_d p1 p2 p3)) eps"
  shows "\<exists>ctr. circumcenter p1 p2 p3 = Inr ctr \<and>
     in_circumcircle p p1 p2 p3 = Inr (flt (sq_dist ctr p) (fsub (sq_dist ctr p1) eps))"
proof -
  obtain ux uy where c: "circumcenter p1 p2 p3 = Inr (ux, uy)" "bnd 455 ux" "bnd 455 uy"
    using circumcenter_bnd[OF b(2,3,4) g] by blast
  have q: "bnd 138 (fst p)" "bnd 138 (snd p)" "bnd 138 (fst p1)" "bnd 138 (snd p1)"
    using b by (simp_all add: pt_bnd_def)
  have "in_circumcircle p p1 p2 p3 = Inr (flt (sq_dist (ux, uy) p) (fsub (sq_dist (ux, uy) p1) eps))"
    unfolding in_circumcircle_center[OF c(1) g] sq_dist_def
    by (simp add: sq_total[OF c(2) q(1)] sq_total[OF c(3) q(2)] sq_total[OF c(2) q(3)]
        sq_total[OF c(3) q(4)])
  then show ?thesis using c(1) by blast
qed

lemma in_circumcircle_degenerate:
  "flt (fabs (circum_d p1 p2 p3)) eps \<Longrightarrow> in_circumcircle p p1 p2 p3 = Inr False"
  by (simp add: in_circumcircle_def Let_def)

lemma in_circumcircle_total:
  assumes "pt_bnd 138 p" "pt_bnd 138 p1" "pt_bnd 138 p2" "pt_bnd 138 p3"
  shows "\<exists>r. in_circumcircle p p1 p2 p3 = Inr r"
proof (cases "flt (fabs (circum_d p1 p2 p3)) eps")
  case True
  then have "in_circumcircle p p1 p2 p3 = Inr False" by (rule in_circumcircle_degenerate)
  then show ?thesis by blast
next
  case False
  then show ?thesis using in_circumcircle_bounded[OF assms] by blast
qed

section \<open>A run on decoded points returns a valid mesh\<close>

lemma float_of_bits32_bnd: "bnd 128 (float_of_bits32 w)"
proof -
  have 1: "0 \<le> w mod 2 ^ 23" "w mod 2 ^ 23 < 2 ^ 23" by simp_all
  have 2: "0 \<le> w div 2 ^ 23 mod 256" "w div 2 ^ 23 mod 256 < 256" by simp_all
  show ?thesis unfolding float_of_bits32_unfold by (rule f32_fields_bnd[OF 1 2])
qed

lemma decoded_pt_bnd:
  assumes "build_from_bytes data = Inr pts"
  shows "\<forall>p \<in> set pts. pt_bnd 128 p"
proof -
  have "pts = map (decoded_point data) [0..<nat (point_count data)]"
    using assms unfolding build_from_bytes_eq by (auto split: if_splits)
  then show ?thesis by (auto simp: pt_bnd_def decoded_point_def float_of_bits32_bnd)
qed

lemma circ_safe_bnd:
  assumes "\<forall>p \<in> set pts. pt_bnd 128 p" "\<forall>q \<in> set nodes. pt_bnd 138 q"
  shows "circ_safe (pts @ nodes) pts"
proof -
  have big: "pt_bnd 138 p" if "p \<in> set pts" for p
    using assms(1) that by (auto simp: pt_bnd_def intro: bnd_mono)
  have all: "pt_bnd 138 q" if "q \<in> set (pts @ nodes)" for q
  proof (cases "q \<in> set pts")
    case True
    then show ?thesis by (rule big)
  next
    case False
    then have "q \<in> set nodes" using that by simp
    then show ?thesis using assms(2) by blast
  qed
  show ?thesis unfolding circ_safe_def
    by (intro ballI in_circumcircle_total big all)
qed

lemma run_triangulation_total:
  assumes ne: "pts \<noteq> []" and b: "\<forall>p \<in> set pts. pt_bnd 128 p"
  shows "\<exists>st. run_triangulation pts = Inr st \<and> ps_points st = pts
           \<and> tri_inv (int (length pts)) (int (length pts)) (triangulation st)"
proof -
  define n where "n = int (length pts)"
  obtain nodes where nodes: "super_triangle_nodes pts = Inr nodes" "length nodes = 3"
    "\<forall>q \<in> set nodes. pt_bnd 138 q"
    using super_triangle_nodes_bnd[OF ne b] by blast
  define st0 where "st0 = \<lparr>ps_points = pts, all_points = pts @ nodes,
     triangulation = [(n, n + 1, n + 2)]\<rparr>"
  have run: "run_triangulation pts = insert_loop 0 pts st0"
    by (simp add: run_triangulation_def nodes(1) Let_def st0_def n_def)
  have 1: "tri_inv n 0 (triangulation st0)" by (simp add: st0_def tri_inv_init)
  have 2: "int (length (all_points st0)) = n + 3" by (simp add: st0_def n_def nodes(2))
  have 3: "circ_safe (all_points st0) pts"
    using circ_safe_bnd[OF b nodes(3)] by (simp add: st0_def)
  have 4: "0 + int (length pts) \<le> n" by (simp add: n_def)
  obtain st' where st': "insert_loop 0 pts st0 = Inr st'"
    "tri_inv n (0 + int (length pts)) (triangulation st')" "ps_points st' = ps_points st0"
    using insert_loop_inv[OF 1 _ 4 2 3] by auto
  have "tri_inv n n (triangulation st')" using st'(2) by (simp add: n_def)
  moreover have "ps_points st' = pts" using st'(3) by (simp add: st0_def)
  ultimately show ?thesis using run st'(1) by (simp add: n_def)
qed

lemma Triangles_init_valid:
  assumes "\<forall>i < length ts. violation_of (int (length (points ps))) (take i ts) (ts ! i) = None"
  shows "Triangles_init ps ts = Inr \<lparr>pointset = ps, triangles = ts\<rparr>"
proof -
  have "validate_loop (int (length (points ps))) (sort ` set []) ts \<noteq> Inl e" for e
    unfolding validate_loop_char using assms by auto
  then have "validate_loop (int (length (points ps))) {} ts = Inr ()"
    by (cases "validate_loop (int (length (points ps))) {} ts") auto
  then show ?thesis by (simp add: Triangles_init_def validate_triangles_def Let_def)
qed

lemma sort_eq_of_set_eq:
  assumes "set t = set u" "distinct t" "distinct u"
  shows "sort t = sort (u :: int list)"
proof -
  have "sort t = sorted_list_of_set (set t)"
    using assms(2) by (simp add: sorted_list_of_set_sort_remdups distinct_remdups_id)
  moreover have "sort u = sorted_list_of_set (set u)"
    using assms(3) by (simp add: sorted_list_of_set_sort_remdups distinct_remdups_id)
  ultimately show ?thesis using assms(1) by simp
qed

lemma mesh_invariants_of_valid:
  assumes v: "\<forall>i < length ts. violation_of n (take i ts) (ts ! i) = None"
  shows "mesh_invariants n ts"
proof -
  have each: "length (ts ! i) = 3 \<and> (\<forall>x \<in> set (ts ! i). 0 \<le> x \<and> x < n) \<and> distinct (ts ! i)
      \<and> sort (ts ! i) \<notin> sort ` set (take i ts)" if "i < length ts" for i
  proof -
    have "violation_of n (take i ts) (ts ! i) = None" using v that by simp
    then show ?thesis unfolding violation_of_def by (auto split: if_splits)
  qed
  have a: "\<forall>t \<in> set ts. length t = 3 \<and> (\<forall>x \<in> set t. 0 \<le> x \<and> x < n) \<and> distinct t"
  proof
    fix t assume "t \<in> set ts"
    then obtain i where "i < length ts" "t = ts ! i" by (auto simp: in_set_conv_nth)
    then show "length t = 3 \<and> (\<forall>x \<in> set t. 0 \<le> x \<and> x < n) \<and> distinct t"
      using each by blast
  qed
  have b: "distinct (map set ts)"
  proof (rule ccontr)
    assume "\<not> distinct (map set ts)"
    then obtain i j where ij: "i < j" "j < length ts" "set (ts ! i) = set (ts ! j)"
      unfolding distinct_conv_nth
      by (metis length_map linorder_neqE_nat nth_map)
    have "sort (ts ! i) = sort (ts ! j)"
      using ij each[of i] each[of j] by (intro sort_eq_of_set_eq) simp_all
    moreover have "ts ! i \<in> set (take j ts)"
      using ij by (auto simp: in_set_conv_nth intro!: exI[of _ i])
    ultimately have "sort (ts ! j) \<in> sort ` set (take j ts)" by (metis imageI)
    then show False using each[OF ij(2)] by simp
  qed
  from a b show ?thesis unfolding mesh_invariants_def by simp
qed

lemma triangulate_total:
  assumes ne: "points ps \<noteq> []" and b: "\<forall>p \<in> set (points ps). pt_bnd 128 p"
  shows "\<exists>st. run_triangulation (points ps) = Inr st
     \<and> tri_inv (int (length (points ps))) (int (length (points ps))) (triangulation st)
     \<and> triangulate \<lparr>point_set = ps\<rparr> =
         (Inr \<lparr>pointset = ps,
               triangles = map tuple_list
                 (final_triangles (int (length (points ps))) (triangulation st))\<rparr>,
          \<lparr>point_set = ps\<rparr>)"
proof -
  obtain st where st: "run_triangulation (points ps) = Inr st" "ps_points st = points ps"
    "tri_inv (int (length (points ps))) (int (length (points ps))) (triangulation st)"
    using run_triangulation_total[OF ne b] by blast
  have same: "ps\<lparr>points := points ps\<rparr> = ps" by simp
  have "Triangles_init ps
      (map tuple_list (final_triangles (int (length (points ps))) (triangulation st)))
    = Inr \<lparr>pointset = ps, triangles = map tuple_list
        (final_triangles (int (length (points ps))) (triangulation st))\<rparr>"
    by (intro Triangles_init_valid final_triangles_valid st(3))
  then have "triangulate \<lparr>point_set = ps\<rparr> =
         (Inr \<lparr>pointset = ps,
               triangles = map tuple_list
                 (final_triangles (int (length (points ps))) (triangulation st))\<rparr>,
          \<lparr>point_set = ps\<rparr>)"
    by (simp add: triangulate_def st(1,2) same)
  then show ?thesis using st(1,3) by blast
qed

lemma Triangulator_init_ok:
  assumes "Triangulator_init ps = Inr tr"
  shows "tr = \<lparr>point_set = ps\<rparr>" and "3 \<le> length (points ps)"
  using assms unfolding Triangulator_init_def validate_min_points_def
  by (auto split: sum.splits if_splits)

section \<open>Every accepted point set is triangulated\<close>

lemma Triangulator_init_accepts:
  assumes "3 \<le> length (points ps)" "\<not> has_equal_pair (points ps)"
  shows "Triangulator_init ps = Inr \<lparr>point_set = ps\<rparr>"
proof -
  have "validate_no_duplicates (points ps) = Inr ()"
    unfolding validate_no_duplicates_def
    using no_duplicates_loop_char[of "[]" "points ps"] assms(2)
    by (simp add: has_equal_pair_alt)
  then show ?thesis
    using assms(1) by (simp add: Triangulator_init_def validate_min_points_def)
qed

lemma decoded_run:
  assumes d: "PointSet_init data = Inr ps" and n: "3 \<le> length (points ps)"
  shows "\<exists>st. run_triangulation (points ps) = Inr st
     \<and> ps_points st = points ps
     \<and> (\<forall>i < length (handed_triangles st).
           violation_of (int (length (points ps))) (take i (handed_triangles st))
             (handed_triangles st ! i) = None)
     \<and> triangulate \<lparr>point_set = ps\<rparr> =
         (Inr \<lparr>pointset = ps, triangles = handed_triangles st\<rparr>, \<lparr>point_set = ps\<rparr>)"
proof -
  have "build_from_bytes data = Inr (points ps)"
    using d unfolding PointSet_init_def by (auto split: sum.splits)
  then have b: "\<forall>p \<in> set (points ps). pt_bnd 128 p" by (rule decoded_pt_bnd)
  have ne: "points ps \<noteq> []" using n by auto
  obtain st where st: "run_triangulation (points ps) = Inr st"
    "tri_inv (int (length (points ps))) (int (length (points ps))) (triangulation st)"
    "triangulate \<lparr>point_set = ps\<rparr> =
         (Inr \<lparr>pointset = ps,
               triangles = map tuple_list
                 (final_triangles (int (length (points ps))) (triangulation st))\<rparr>,
          \<lparr>point_set = ps\<rparr>)"
    using triangulate_total[OF ne b] by blast
  have p: "ps_points st = points ps" using run_triangulation_frame(1)[OF st(1)] .
  have h: "handed_triangles st =
      map tuple_list (final_triangles (int (length (points ps))) (triangulation st))"
    by (simp add: handed_triangles_def p)
  have v: "\<forall>i < length (handed_triangles st).
           violation_of (int (length (points ps))) (take i (handed_triangles st))
             (handed_triangles st ! i) = None"
    unfolding h by (rule final_triangles_valid[OF st(2)])
  show ?thesis using st(1) p v st(3) h by auto
qed

lemma decode_collinear: "build_from_bytes collinear_buffer = Inr (points collinear_points)"
  by (simp add: collinear_buffer_def codec_eval collinear_points_def zero_f_def one_f_def two_f_def)

lemma nodes_line:
  "super_triangle_nodes
     [(Finite False 0 (- 1074), Finite False 0 (- 1074)),
      (Finite False 4503599627370496 (- 52), Finite False 0 (- 1074)),
      (Finite False 4503599627370496 (- 51), Finite False 0 (- 1074))]
   = Inr [(Finite True 5488762045857792 (- 47), Finite True 4503599627370496 (- 51)),
      (Finite False 4503599627370496 (- 52), Finite False 5629499534213120 (- 47)),
      (Finite False 5770237022568448 (- 47), Finite True 4503599627370496 (- 51))]"
  by (simp add: super_triangle_nodes_def py_min_def py_max_def fl_eval cong: fl_cong)

lemma circ_21:
  "in_circumcircle
     (Finite False 0 (- 1074), Finite False 0 (- 1074))
     (Finite True 5488762045857792 (- 47), Finite True 4503599627370496 (- 51))
     (Finite False 4503599627370496 (- 52), Finite False 5629499534213120 (- 47))
     (Finite False 5770237022568448 (- 47), Finite True 4503599627370496 (- 51))
   = Inr True"
  by (simp add: in_circumcircle_def circum_d_def fl_eval cong: fl_cong)

lemma circ_22:
  "in_circumcircle
     (Finite False 4503599627370496 (- 52), Finite False 0 (- 1074))
     (Finite True 5488762045857792 (- 47), Finite True 4503599627370496 (- 51))
     (Finite False 4503599627370496 (- 52), Finite False 5629499534213120 (- 47))
     (Finite False 0 (- 1074), Finite False 0 (- 1074))
   = Inr False"
  by (simp add: in_circumcircle_def circum_d_def fl_eval cong: fl_cong)

lemma circ_23:
  "in_circumcircle
     (Finite False 4503599627370496 (- 52), Finite False 0 (- 1074))
     (Finite False 4503599627370496 (- 52), Finite False 5629499534213120 (- 47))
     (Finite False 5770237022568448 (- 47), Finite True 4503599627370496 (- 51))
     (Finite False 0 (- 1074), Finite False 0 (- 1074))
   = Inr True"
  by (simp add: in_circumcircle_def circum_d_def fl_eval cong: fl_cong)

lemma circ_24:
  "in_circumcircle
     (Finite False 4503599627370496 (- 52), Finite False 0 (- 1074))
     (Finite False 5770237022568448 (- 47), Finite True 4503599627370496 (- 51))
     (Finite True 5488762045857792 (- 47), Finite True 4503599627370496 (- 51))
     (Finite False 0 (- 1074), Finite False 0 (- 1074))
   = Inr True"
  by (simp add: in_circumcircle_def circum_d_def fl_eval cong: fl_cong)

lemma circ_25:
  "in_circumcircle
     (Finite False 4503599627370496 (- 51), Finite False 0 (- 1074))
     (Finite True 5488762045857792 (- 47), Finite True 4503599627370496 (- 51))
     (Finite False 4503599627370496 (- 52), Finite False 5629499534213120 (- 47))
     (Finite False 0 (- 1074), Finite False 0 (- 1074))
   = Inr False"
  by (simp add: in_circumcircle_def circum_d_def fl_eval cong: fl_cong)

lemma circ_26:
  "in_circumcircle
     (Finite False 4503599627370496 (- 51), Finite False 0 (- 1074))
     (Finite False 4503599627370496 (- 52), Finite False 5629499534213120 (- 47))
     (Finite False 5770237022568448 (- 47), Finite True 4503599627370496 (- 51))
     (Finite False 4503599627370496 (- 52), Finite False 0 (- 1074))
   = Inr True"
  by (simp add: in_circumcircle_def circum_d_def fl_eval cong: fl_cong)

lemma circ_27:
  "in_circumcircle
     (Finite False 4503599627370496 (- 51), Finite False 0 (- 1074))
     (Finite False 0 (- 1074), Finite False 0 (- 1074))
     (Finite False 4503599627370496 (- 52), Finite False 5629499534213120 (- 47))
     (Finite False 4503599627370496 (- 52), Finite False 0 (- 1074))
   = Inr False"
  by (simp add: in_circumcircle_def circum_d_def fl_eval cong: fl_cong)

lemma circ_28:
  "in_circumcircle
     (Finite False 4503599627370496 (- 51), Finite False 0 (- 1074))
     (Finite False 5770237022568448 (- 47), Finite True 4503599627370496 (- 51))
     (Finite True 5488762045857792 (- 47), Finite True 4503599627370496 (- 51))
     (Finite False 4503599627370496 (- 52), Finite False 0 (- 1074))
   = Inr False"
  by (simp add: in_circumcircle_def circum_d_def fl_eval cong: fl_cong)

lemma circ_29:
  "in_circumcircle
     (Finite False 4503599627370496 (- 51), Finite False 0 (- 1074))
     (Finite True 5488762045857792 (- 47), Finite True 4503599627370496 (- 51))
     (Finite False 0 (- 1074), Finite False 0 (- 1074))
     (Finite False 4503599627370496 (- 52), Finite False 0 (- 1074))
   = Inr False"
  by (simp add: in_circumcircle_def circum_d_def fl_eval cong: fl_cong)

lemma run_line:
  "run_triangulation
     [(Finite False 0 (- 1074), Finite False 0 (- 1074)),
      (Finite False 4503599627370496 (- 52), Finite False 0 (- 1074)),
      (Finite False 4503599627370496 (- 51), Finite False 0 (- 1074))]
   = Inr \<lparr>ps_points = [(Finite False 0 (- 1074), Finite False 0 (- 1074)),
      (Finite False 4503599627370496 (- 52), Finite False 0 (- 1074)),
      (Finite False 4503599627370496 (- 51), Finite False 0 (- 1074))],
      all_points = [(Finite False 0 (- 1074), Finite False 0 (- 1074)),
      (Finite False 4503599627370496 (- 52), Finite False 0 (- 1074)),
      (Finite False 4503599627370496 (- 51), Finite False 0 (- 1074)),
      (Finite True 5488762045857792 (- 47), Finite True 4503599627370496 (- 51)),
      (Finite False 4503599627370496 (- 52), Finite False 5629499534213120 (- 47)),
      (Finite False 5770237022568448 (- 47), Finite True 4503599627370496 (- 51))],
      triangulation = [(3, 4, 0), (0, 4, 1), (5, 3, 1), (3, 0, 1), (4, 5, 2), (5, 1, 2), (1, 4, 2)]\<rparr>"
  by (simp add: run_triangulation_def nodes_line run_eval circ_21 circ_22 circ_23 circ_24 circ_25 circ_26 circ_27 circ_28 circ_29 cong: fl_cong)

text \<open>
  Claim C10. Every point set decoded from a buffer that holds at least 3 points, no
  two of them equal coordinate by coordinate, is accepted by the constructor of the
  Triangulator, and \<open>triangulate\<close> on it returns normally: the run raises nowhere,
  the triangle list handed to the constructor of \<open>Triangles\<close> satisfies the four
  invariants over the \<open>n\<close> original points, the constructor accepts it, and the
  result is the mesh of that list over the point set given. Points on a line are not
  rejected; the witness below is such an input, whose mesh has no triangle.
  A PointSet has no other constructor than the decoder, so its coordinates are
  binary32 values; this is what keeps \<open>** 2\<close> from overflowing.
\<close>

theorem C10_triangulate_returns_valid_mesh:
  assumes "PointSet_init data = Inr ps"
    and "3 \<le> length (points ps)" and "\<not> has_equal_pair (points ps)"
  shows "Triangulator_init ps = Inr \<lparr>point_set = ps\<rparr>
     \<and> (\<exists>st. run_triangulation (points ps) = Inr st
           \<and> mesh_invariants (int (length (points ps))) (handed_triangles st)
           \<and> Triangles_init ps (handed_triangles st)
               = Inr \<lparr>pointset = ps, triangles = handed_triangles st\<rparr>
           \<and> fst (triangulate \<lparr>point_set = ps\<rparr>)
               = Inr \<lparr>pointset = ps, triangles = handed_triangles st\<rparr>)"
proof -
  obtain st where st: "run_triangulation (points ps) = Inr st"
    "\<forall>i < length (handed_triangles st).
           violation_of (int (length (points ps))) (take i (handed_triangles st))
             (handed_triangles st ! i) = None"
    "triangulate \<lparr>point_set = ps\<rparr> =
         (Inr \<lparr>pointset = ps, triangles = handed_triangles st\<rparr>, \<lparr>point_set = ps\<rparr>)"
    using decoded_run[OF assms(1,2)] by blast
  have 1: "mesh_invariants (int (length (points ps))) (handed_triangles st)"
    using st(2) by (rule mesh_invariants_of_valid)
  have 2: "Triangles_init ps (handed_triangles st)
               = Inr \<lparr>pointset = ps, triangles = handed_triangles st\<rparr>"
    using st(2) by (rule Triangles_init_valid)
  have 3: "fst (triangulate \<lparr>point_set = ps\<rparr>)
               = Inr \<lparr>pointset = ps, triangles = handed_triangles st\<rparr>"
    by (simp add: st(3))
  have 0: "Triangulator_init ps = Inr \<lparr>point_set = ps\<rparr>"
    using assms(2,3) by (rule Triangulator_init_accepts)
  from 0 st(1) 1 2 3 show ?thesis by blast
qed

theorem C10_witness:
  "PointSet_init collinear_buffer = Inr collinear_points
   \<and> 3 \<le> length (points collinear_points)
   \<and> \<not> has_equal_pair (points collinear_points)
   \<and> Triangulator_init collinear_points = Inr \<lparr>point_set = collinear_points\<rparr>
   \<and> fst (triangulate \<lparr>point_set = collinear_points\<rparr>)
       = Inr \<lparr>pointset = collinear_points, triangles = []\<rparr>
   \<and> mesh_invariants 3 []"
proof -
  have a: "PointSet_init collinear_buffer = Inr collinear_points"
    using decode_collinear by (simp add: PointSet_init_def collinear_points_def)
  have b: "3 \<le> length (points collinear_points)" by (simp add: collinear_points_def)
  have "no_duplicates_loop [] (points collinear_points) = Inr ()"
    by (simp add: collinear_points_def point_eq_def zero_f_def one_f_def two_f_def sgn_int_def)
  then have c: "\<not> has_equal_pair (points collinear_points)"
    unfolding has_equal_pair_alt
    using no_duplicates_loop_char[of "[]" "points collinear_points"]
    by (simp split: if_splits)
  have r: "run_triangulation (points collinear_points)
      = Inr \<lparr>ps_points = points collinear_points,
             all_points = points collinear_points @
               [(Finite True 5488762045857792 (- 47), Finite True 4503599627370496 (- 51)),
                (Finite False 4503599627370496 (- 52), Finite False 5629499534213120 (- 47)),
                (Finite False 5770237022568448 (- 47), Finite True 4503599627370496 (- 51))],
             triangulation = [(3, 4, 0), (0, 4, 1), (5, 3, 1), (3, 0, 1), (4, 5, 2), (5, 1, 2), (1, 4, 2)]\<rparr>"
    using run_line by (simp add: collinear_points_def zero_f_def one_f_def two_f_def)
  have h: "handed_triangles st = []"
    if "run_triangulation (points collinear_points) = Inr st" for st
    using that unfolding r
    by (auto simp: handed_triangles_def final_triangles_def collinear_points_def)
  from C10_triangulate_returns_valid_mesh[OF a b c] obtain st where
    st: "run_triangulation (points collinear_points) = Inr st"
      "mesh_invariants (int (length (points collinear_points))) (handed_triangles st)"
      "fst (triangulate \<lparr>point_set = collinear_points\<rparr>)
         = Inr \<lparr>pointset = collinear_points, triangles = handed_triangles st\<rparr>"
      and t: "Triangulator_init collinear_points = Inr \<lparr>point_set = collinear_points\<rparr>"
    by blast
  have "mesh_invariants 3 []" using st(2) h[OF st(1)] by (simp add: collinear_points_def)
  then show ?thesis using a b c t st(3) h[OF st(1)] by simp
qed

section \<open>The circumcircle test\<close>










section \<open>Three points\<close>









end
